theory Spec2Isabelle
  imports Main "HOL-Library.AList" "HOL-Library.Multiset"
begin

section \<open>The subset differ of \<open>pkg/kubernetes/subsetdiff.go\<close>\<close>

subsection \<open>Values of type \<open>interface{}\<close>\<close>

text \<open>
  The trees that \<open>subset\<close> walks are Go values of type \<open>map[string]interface{}\<close>.
  The type switch of \<open>subset\<close> tells five kinds of dynamic value apart:
  the nil interface, \<open>map[string]interface{}\<close>, \<open>[]map[string]interface{}\<close>,
  \<open>[]interface{}\<close>, and everything else (strings, numbers, booleans, ...), which the
  function never looks into; the type parameter \<open>'a\<close> stands for these.

  A Go map is an association list here; a map has one entry per key, so the lists that
  stand for Go maps have distinct keys (\<open>distinct_keys\<close> below; \<open>subset\<close> keeps
  the property, lemma \<open>distinct_keys_all\<close>). Maps are allocated: a nil map, in which
  line 116 could not store, is not a value of the model. A nil slice behaves as the empty
  one in every operation used.

  The trees are values. The live tree and the desired tree share no storage when
  \<open>subset\<close> is called, as two decoded documents do not. The assignments of lines 116
  and 121 then make the live tree hold the desired value itself, and the loop reduces
  that value against itself, in the one place where it is stored. \<open>subset\<close> computes the
  tree that the call returns, and \<open>local_after\<close> the tree that the call leaves in the
  hands of the caller as the desired tree.
\<close>

datatype panic = IndexOutOfRange

datatype 'a val =
    VNil
  | VOther 'a
  | VMap "(string \<times> 'a val) list"
  | VMapSlice "(string \<times> 'a val) list list"
  | VSlice "'a val list"

type_synonym 'a tree = "(string \<times> 'a val) list"

text \<open>The index expression \<open>m[k]\<close>: the nil interface when the key is absent.\<close>

definition index :: "'a tree \<Rightarrow> string \<Rightarrow> 'a val" where
  "index m k = (case map_of m k of None \<Rightarrow> VNil | Some v \<Rightarrow> v)"

definition keys :: "'a tree \<Rightarrow> string set" where
  "keys m = fst ` set m"

lemma size_index:
  "index m k \<noteq> VNil \<Longrightarrow> size (index m k) < size_list (size_prod (\<lambda>_. 0) size) m"
  by (induction m) (auto simp: index_def)

subsection \<open>\<open>subset\<close>\<close>

text \<open>
  \<open>subset local cluster\<close> mutates \<open>cluster\<close> in place and returns it; the model returns
  the final contents of \<open>cluster\<close>, or \<open>Inl IndexOutOfRange\<close> where the Go code panics.

  \<^item> \<open>subset\<close> is the function body: the two forced fields (lines 115-122), then the
    loop over \<open>cluster\<close>.
  \<^item> \<open>range_cluster local es\<close> is the loop \<open>for k, v := range cluster\<close> (lines 124-164)
    over the entries \<open>es\<close> still to visit. An iteration reads \<open>local[k]\<close> and touches
    only the entry of its own key: it deletes the entry (lines 125-128), or leaves it
    holding what the type switch made of \<open>v\<close>. The result lists the entries that remain.
  \<^item> \<open>switch_type lk v\<close> is the type switch on \<open>v\<close> (lines 130-163) with
    \<open>lk = local[k]\<close>; it yields the value \<open>cluster[k]\<close> holds afterwards. The slices of
    the second and third case are updated in place, so \<open>cluster[k]\<close> sees the new elements.
  \<^item> \<open>range_maps a b\<close> is the loop of lines 136-140 from the current index on: the heads
    of \<open>a\<close> and \<open>b\<close> are \<open>a[i]\<close> and \<open>b[i]\<close>. The index expression \<open>a[i]\<close> is not
    guarded: it panics when \<open>a\<close> has run out.
  \<^item> \<open>range_slice a b\<close> is the loop of lines 142-162 in the same way: \<open>break\<close> when
    \<open>a\<close> has run out (line 146), \<open>continue\<close> when \<open>a[i]\<close> or \<open>b[i]\<close> is not a map
    (lines 152, 158).
  The type assertion on \<open>local[k]\<close> inside the two slice loops does not depend on
  \<open>i\<close>; \<open>switch_type\<close> makes it once.
\<close>

function subset :: "'a tree \<Rightarrow> 'a tree \<Rightarrow> panic + 'a tree"
  and range_cluster :: "'a tree \<Rightarrow> 'a tree \<Rightarrow> panic + 'a tree"
  and switch_type :: "'a val \<Rightarrow> 'a val \<Rightarrow> panic + 'a val"
  and range_maps :: "'a tree list \<Rightarrow> 'a tree list \<Rightarrow> panic + 'a tree list"
  and range_slice :: "'a val list \<Rightarrow> 'a val list \<Rightarrow> panic + 'a val list"
where
  "subset local cluster =
     (let cluster = (if index local ''namespace'' \<noteq> VNil
                     then AList.update ''namespace'' (index local ''namespace'') cluster
                     else cluster);
          cluster = (if index local ''apiVersion'' \<noteq> VNil \<and> index cluster ''apiVersion'' \<noteq> VNil
                     then AList.update ''apiVersion'' (index local ''apiVersion'') cluster
                     else cluster)
      in range_cluster local cluster)"
| "range_cluster local [] = Inr []"
| "range_cluster local ((k, v) # rest) =
     (if index local k = VNil then range_cluster local rest
      else case switch_type (index local k) v of
             Inl e \<Rightarrow> Inl e
           | Inr v' \<Rightarrow> (case range_cluster local rest of
                          Inl e \<Rightarrow> Inl e
                        | Inr rest' \<Rightarrow> Inr ((k, v') # rest')))"
| "switch_type lk v =
     (case v of
        VMap b \<Rightarrow>
          (case lk of
             VMap a \<Rightarrow> (case subset a b of Inl e \<Rightarrow> Inl e | Inr r \<Rightarrow> Inr (VMap r))
           | _ \<Rightarrow> Inr v)
      | VMapSlice b \<Rightarrow>
          (case lk of
             VMapSlice a \<Rightarrow> (case range_maps a b of Inl e \<Rightarrow> Inl e | Inr r \<Rightarrow> Inr (VMapSlice r))
           | _ \<Rightarrow> Inr v)
      | VSlice b \<Rightarrow>
          (case lk of
             VSlice a \<Rightarrow> (case range_slice a b of Inl e \<Rightarrow> Inl e | Inr r \<Rightarrow> Inr (VSlice r))
           | _ \<Rightarrow> Inr v)
      | _ \<Rightarrow> Inr v)"
| "range_maps a [] = Inr []"
| "range_maps [] (y # b) = Inl IndexOutOfRange"
| "range_maps (x # a) (y # b) =
     (case subset x y of
        Inl e \<Rightarrow> Inl e
      | Inr r \<Rightarrow> (case range_maps a b of Inl e \<Rightarrow> Inl e | Inr rs \<Rightarrow> Inr (r # rs)))"
| "range_slice a [] = Inr []"
| "range_slice [] (y # b) = Inr (y # b)"
| "range_slice (x # a) (y # b) =
     (case x of
        VMap cShould \<Rightarrow>
          (case y of
             VMap cIs \<Rightarrow>
               (case subset cShould cIs of
                  Inl e \<Rightarrow> Inl e
                | Inr r \<Rightarrow> (case range_slice a b of
                             Inl e \<Rightarrow> Inl e
                           | Inr rs \<Rightarrow> Inr (VMap r # rs)))
           | _ \<Rightarrow> (case range_slice a b of Inl e \<Rightarrow> Inl e | Inr rs \<Rightarrow> Inr (y # rs)))
      | _ \<Rightarrow> (case range_slice a b of Inl e \<Rightarrow> Inl e | Inr rs \<Rightarrow> Inr (y # rs)))"
  by pat_completeness auto
termination
  by (relation "measures
        [\<lambda>x. case x of
                Inl (Inl (l, c)) \<Rightarrow> size_list (size_prod (\<lambda>_. 0) size) l
              | Inl (Inr (l, es)) \<Rightarrow> size_list (size_prod (\<lambda>_. 0) size) l
              | Inr (Inl (dv, v)) \<Rightarrow> size dv
              | Inr (Inr (Inl (a, b))) \<Rightarrow> size_list (size_list (size_prod (\<lambda>_. 0) size)) a
              | Inr (Inr (Inr (a, b))) \<Rightarrow> size_list size a,
         \<lambda>x. case x of Inl (Inl _) \<Rightarrow> Suc 0 | _ \<Rightarrow> 0,
         \<lambda>x. case x of Inl (Inr (l, es)) \<Rightarrow> length es | _ \<Rightarrow> 0]")
     (auto simp: size_index)

text \<open>
  The same loop with the map as its state, as the source has it: the entries of
  \<open>cluster\<close> are visited in turn, and an iteration deletes its key from the map
  (\<open>delete(cluster, k)\<close>) or stores the new value under it. For a map with one entry
  per key this is \<open>range_cluster\<close> (lemma \<open>range_cluster_in_place\<close> below).
\<close>

fun range_cluster_in_place :: "'a tree \<Rightarrow> 'a tree \<Rightarrow> 'a tree \<Rightarrow> panic + 'a tree" where
  "range_cluster_in_place d [] c = Inr c"
| "range_cluster_in_place d ((k, v) # rest) c =
     (if index d k = VNil then range_cluster_in_place d rest (AList.delete k c)
      else case switch_type (index d k) v of
             Inl e \<Rightarrow> Inl e
           | Inr v' \<Rightarrow> range_cluster_in_place d rest (AList.update k v' c))"

subsection \<open>The desired tree after the call\<close>

text \<open>
  \<open>subset\<close> assigns into \<open>cluster\<close> only, and reads \<open>local\<close>. Lines 116 and 121,
  though, store under \<open>cluster[k]\<close> the value that \<open>local[k]\<close> holds, and Go stores a map
  or a slice by reference: from then on \<open>cluster[k]\<close> and \<open>local[k]\<close> are one object.
  The loop visits the entry as any other, and what it does to \<open>cluster[k]\<close> (the entries
  that line 126 deletes from a map, the elements that lines 138 and 160 store in a
  slice) it does to \<open>local[k]\<close>.

  \<^item> \<open>reduced_in_place v\<close> is the object \<open>v\<close> after the type switch has run with
    \<open>local[k]\<close> and \<open>cluster[k]\<close> both \<open>v\<close>. An iteration touches only the entry or
    the element it visits, so this is what \<open>switch_type v v\<close> yields. The switch does
    not panic here, as the two slices of line 138 are one slice (lemma
    \<open>switch_type_self_safe\<close>); the second branch of the definition is taken only by
    association lists with a key twice, which stand for no Go map.
  \<^item> \<open>local_after local cluster\<close> is the contents of \<open>local\<close> when
    \<open>subset(local, cluster)\<close> has returned, entry by entry. A nil value passes neither
    guard (lines 115, 120) and the loop deletes the entry of \<open>cluster\<close> (line 126): it
    stays. A non-nil value under \<open>namespace\<close>, and one under \<open>apiVersion\<close> when
    \<open>cluster\<close> has a non-nil \<open>apiVersion\<close>, is the stored one: it is reduced in place.
    Any other value is not stored; the type switch reads it, with \<open>v = cluster[k]\<close>
    (nil when \<open>cluster\<close> has no such key, in which case the loop does not come by).
  \<^item> \<open>value_after dv v\<close> follows the type switch of \<open>switch_type dv v\<close>: the calls of
    \<open>subset\<close> for the maps inside \<open>dv\<close> (lines 133, 138, 160) are the only
    statements that reach \<open>dv\<close>. \<open>maps_after\<close> and \<open>slice_after\<close> follow the two
    slice loops by index; the elements of the desired slice that the loop over the live
    slice does not reach stay.
\<close>

definition reduced_in_place :: "'a val \<Rightarrow> 'a val" where
  "reduced_in_place v = (case switch_type v v of Inr w \<Rightarrow> w | Inl e \<Rightarrow> v)"

fun local_after :: "'a tree \<Rightarrow> 'a tree \<Rightarrow> 'a tree"
  and value_after :: "'a val \<Rightarrow> 'a val \<Rightarrow> 'a val"
  and maps_after :: "'a tree list \<Rightarrow> 'a tree list \<Rightarrow> 'a tree list"
  and slice_after :: "'a val list \<Rightarrow> 'a val list \<Rightarrow> 'a val list"
where
  "local_after [] cluster = []"
| "local_after ((k, dv) # rest) cluster =
     (k, if dv = VNil then dv
         else if k = ''namespace'' \<or> (k = ''apiVersion'' \<and> index cluster ''apiVersion'' \<noteq> VNil)
         then reduced_in_place dv
         else value_after dv (index cluster k))
     # local_after rest cluster"
| "value_after dv v =
     (case v of
        VMap b \<Rightarrow> (case dv of VMap a \<Rightarrow> VMap (local_after a b) | _ \<Rightarrow> dv)
      | VMapSlice b \<Rightarrow> (case dv of VMapSlice a \<Rightarrow> VMapSlice (maps_after a b) | _ \<Rightarrow> dv)
      | VSlice b \<Rightarrow> (case dv of VSlice a \<Rightarrow> VSlice (slice_after a b) | _ \<Rightarrow> dv)
      | _ \<Rightarrow> dv)"
| "maps_after a [] = a"
| "maps_after [] (y # b) = []"
| "maps_after (x # a) (y # b) = local_after x y # maps_after a b"
| "slice_after a [] = a"
| "slice_after [] (y # b) = []"
| "slice_after (x # a) (y # b) =
     (case x of
        VMap cShould \<Rightarrow> (case y of VMap cIs \<Rightarrow> VMap (local_after cShould cIs) | _ \<Rightarrow> x)
      | _ \<Rightarrow> x)
     # slice_after a b"

subsection \<open>Positions in a tree\<close>

text \<open>
  A step leads from a map to a map nested in it: the value of a key, an element of a
  \<open>[]map[string]interface{}\<close> under a key, or an element of a \<open>[]interface{}\<close> under a
  key. \<open>descend m p\<close> is the map reached from \<open>m\<close> along the path \<open>p\<close>, if there is one.
\<close>

datatype step = Key string | KeyMapIdx string nat | KeyIdx string nat

fun child :: "'a tree \<Rightarrow> step \<Rightarrow> 'a tree option" where
  "child m (Key k) = (case map_of m k of Some (VMap t) \<Rightarrow> Some t | _ \<Rightarrow> None)"
| "child m (KeyMapIdx k i) =
     (case map_of m k of
        Some (VMapSlice ts) \<Rightarrow> if i < length ts then Some (ts ! i) else None
      | _ \<Rightarrow> None)"
| "child m (KeyIdx k i) =
     (case map_of m k of
        Some (VSlice vs) \<Rightarrow>
          if i < length vs then (case vs ! i of VMap t \<Rightarrow> Some t | _ \<Rightarrow> None) else None
      | _ \<Rightarrow> None)"

fun descend :: "'a tree \<Rightarrow> step list \<Rightarrow> 'a tree option" where
  "descend m [] = Some m"
| "descend m (s # p) = (case child m s of None \<Rightarrow> None | Some t \<Rightarrow> descend t p)"

subsection \<open>The per-manifest worker\<close>

text \<open>
  Go errors: the cluster client's \<open>ErrorNotFound\<close>, any other error, and
  \<open>errors.Wrap err msg\<close>. The type assertion of line 90 holds for \<open>ErrorNotFound\<close>
  itself only, not for an error that wraps it.
\<close>

datatype goerr = ErrorNotFound | ErrorOther string | Wrap goerr string

record difference =
  name :: string
  local :: string
  cluster :: string

text \<open>
  The collaborators are not part of this file of the repository and are parameters:
  \<^item> \<open>DiffName\<close> is \<open>util.DiffName\<close>, the display label of a manifest;
  \<^item> \<open>Get m\<close> is the call \<open>c.Get(m.Metadata().Namespace(), m.Kind(), m.Metadata().Name())\<close>
    of lines 84-88 with its two results, the tree and the error (\<open>None\<close> for \<open>nil\<close>);
  \<^item> \<open>String\<close> is \<open>manifest.Manifest.String\<close>, the serializer;
  \<^item> \<open>DiffStr\<close> is \<open>util.DiffStr\<close>, the renderer, with \<open>Inl\<close> for a non-nil error.
\<close>

record 'a externals =
  DiffName :: "'a tree \<Rightarrow> string"
  Get :: "'a tree \<Rightarrow> 'a tree \<times> goerr option"
  String :: "'a tree \<Rightarrow> string"
  DiffStr :: "string \<Rightarrow> string \<Rightarrow> string \<Rightarrow> goerr + string"

definition newline :: string where
  "newline = [CHR 0x0A]"

text \<open>
  \<open>subsetDiff\<close> returns \<open>Inr (Inr d)\<close> for \<open>(&d, nil)\<close>, \<open>Inr (Inl err)\<close> for
  \<open>(nil, err)\<close>, and \<open>Inl p\<close> when \<open>subset\<close> panics.
\<close>

definition subsetDiff :: "'a externals \<Rightarrow> 'a tree \<Rightarrow> panic + (goerr + difference)" where
  "subsetDiff c m =
     (let name = DiffName c m;
          (res, err) = Get c m
      in case (case err of
                 Some ErrorNotFound \<Rightarrow> Inr []
               | Some e \<Rightarrow> Inl (Wrap e ''getting state from cluster'')
               | None \<Rightarrow> Inr res) of
           Inl e \<Rightarrow> Inr (Inl e)
         | Inr res \<Rightarrow>
             (let local = String c m
              in case subset m res of
                   Inl p \<Rightarrow> Inl p
                 | Inr reduced \<Rightarrow>
                     (let cluster = String c reduced;
                          cluster = (if cluster = ''{}'' @ newline then [] else cluster)
                      in Inr (Inr \<lparr>name = name, local = cluster, cluster = local\<rparr>))))"

text \<open>
  \<open>parallelSubsetDiff\<close> sends the error on the channel \<open>e\<close> or the record on the channel
  \<open>r\<close>; its message is the sum value, \<open>Inl\<close> for the error channel.
\<close>

definition parallelSubsetDiff :: "'a externals \<Rightarrow> 'a tree \<Rightarrow> panic + (goerr + difference)" where
  "parallelSubsetDiff c should = subsetDiff c should"

subsection \<open>The differ returned by \<open>SubsetDiffer\<close>\<close>

text \<open>
  One goroutine is started per manifest (lines 30-32). A panic that no goroutine
  recovers ends the process, so the caller gets past its receive loop only if every
  worker has sent its message: \<open>join\<close> yields the messages in the order of the
  manifests, or the panic.
\<close>

fun join :: "(panic + 'b) list \<Rightarrow> panic + 'b list" where
  "join [] = Inr []"
| "join (Inl p # ws) = Inl p"
| "join (Inr x # ws) = (case join ws of Inl p \<Rightarrow> Inl p | Inr xs \<Rightarrow> Inr (x # xs))"

text \<open>
  The receive loop of lines 35-42 takes \<open>len(state)\<close> messages in the order in which
  the workers happen to send them. That order is the parameter \<open>order\<close>: the indices
  of the manifests in order of arrival, each index once.
\<close>

definition arrival_order :: "nat \<Rightarrow> nat list \<Rightarrow> bool" where
  "arrival_order n order \<longleftrightarrow> mset order = mset [0..<n]"

fun collect :: "(goerr + difference) list \<Rightarrow> difference list \<Rightarrow> goerr option
                  \<Rightarrow> difference list \<times> goerr option" where
  "collect [] docs lastErr = (docs, lastErr)"
| "collect (Inr d # rest) docs lastErr = collect rest (docs @ [d]) lastErr"
| "collect (Inl err # rest) docs lastErr = collect rest docs (Some err)"

text \<open>The loop of lines 51-60 over the collected records, with the text built so far.\<close>

fun range_docs :: "'a externals \<Rightarrow> difference list \<Rightarrow> string \<Rightarrow> goerr + string" where
  "range_docs c [] diffs = Inr diffs"
| "range_docs c (d # docs) diffs =
     (case DiffStr c (name d) (local d) (cluster d) of
        Inl err \<Rightarrow> Inl (Wrap err ''invoking diff'')
      | Inr diffStr \<Rightarrow>
          range_docs c docs (diffs @ (if diffStr \<noteq> [] then diffStr @ newline else diffStr)))"

definition TrimSuffix :: "string \<Rightarrow> string \<Rightarrow> string" where
  "TrimSuffix s suffix =
     (if length suffix \<le> length s \<and> drop (length s - length suffix) s = suffix
      then take (length s - length suffix) s else s)"

text \<open>
  The result \<open>(*string, error)\<close> of the differ is a pair of options, \<open>None\<close> for
  \<open>nil\<close>; \<open>Inl p\<close> stands for the run that a panicking worker ends.
\<close>

definition SubsetDiffer :: "'a externals \<Rightarrow> nat list \<Rightarrow> 'a tree list
                              \<Rightarrow> panic + (string option \<times> goerr option)" where
  "SubsetDiffer c order state =
     (case join (map (parallelSubsetDiff c) state) of
        Inl p \<Rightarrow> Inl p
      | Inr sent \<Rightarrow>
          (let (docs, lastErr) = collect (map (\<lambda>i. sent ! i) order) [] None
           in case lastErr of
                Some err \<Rightarrow> Inr (None, Some (Wrap err ''calculating subset''))
              | None \<Rightarrow>
                  (case range_docs c docs [] of
                     Inl err \<Rightarrow> Inr (None, Some err)
                   | Inr diffs \<Rightarrow>
                       (let diffs = TrimSuffix diffs newline
                        in if diffs = [] then Inr (None, None) else Inr (Some diffs, None)))))"

subsection \<open>Notions used in the statements\<close>

text \<open>
  The two assignments of lines 115-122, as functions of the desired tree and the live
  tree; \<open>subset\<close> runs its loop over the live tree they leave.
\<close>

definition force_namespace :: "'a tree \<Rightarrow> 'a tree \<Rightarrow> 'a tree" where
  "force_namespace d l =
     (if index d ''namespace'' \<noteq> VNil
      then AList.update ''namespace'' (index d ''namespace'') l else l)"

definition force_apiVersion :: "'a tree \<Rightarrow> 'a tree \<Rightarrow> 'a tree" where
  "force_apiVersion d l =
     (if index d ''apiVersion'' \<noteq> VNil \<and> index l ''apiVersion'' \<noteq> VNil
      then AList.update ''apiVersion'' (index d ''apiVersion'') l else l)"

text \<open>
  \<open>distinct_keys v\<close>: every association list inside \<open>v\<close> has one entry per key, as
  a Go map has.
\<close>

fun distinct_keys :: "'a val \<Rightarrow> bool" where
  "distinct_keys (VMap m) = (distinct (map fst m) \<and> (\<forall>e \<in> set m. distinct_keys (snd e)))"
| "distinct_keys (VMapSlice ms) =
     (\<forall>m \<in> set ms. distinct (map fst m) \<and> (\<forall>e \<in> set m. distinct_keys (snd e)))"
| "distinct_keys (VSlice vs) = (\<forall>v \<in> set vs. distinct_keys v)"
| "distinct_keys _ = True"

text \<open>
  \<open>null_free v\<close>: no map that the reduction can reach inside \<open>v\<close> (through map
  values, elements of a slice of maps, and map elements of a slice) has an entry whose
  value is nil.
\<close>

fun null_free :: "'a val \<Rightarrow> bool" where
  "null_free (VMap m) = (\<forall>e \<in> set m. snd e \<noteq> VNil \<and> null_free (snd e))"
| "null_free (VMapSlice ms) =
     (\<forall>m \<in> set ms. \<forall>e \<in> set m. snd e \<noteq> VNil \<and> null_free (snd e))"
| "null_free (VSlice vs) = (\<forall>v \<in> set vs. case v of VMap m \<Rightarrow> null_free v | _ \<Rightarrow> True)"
| "null_free _ = True"

lemma size_snd_mem:
  "e \<in> set m \<Longrightarrow> size (snd e) < size_list (size_prod (\<lambda>_. 0) size) m"
  by (induction m) auto

lemma size_list_mem: "x \<in> set xs \<Longrightarrow> f x < size_list f xs"
  by (induction xs) auto

text \<open>
  \<open>lists_fit lk v\<close>: wherever a slice of maps of the live value \<open>v\<close> stands at the
  position of a slice of maps of the desired value \<open>lk\<close>, the desired slice is at least
  as long. Positions are paired as the values nest: a key of two maps, an index of two
  slices of maps, an index of two slices whose elements there are both maps.
\<close>

function lists_fit :: "'a val \<Rightarrow> 'a val \<Rightarrow> bool" where
  "lists_fit (VMap a) (VMap b) = (\<forall>e \<in> set b. lists_fit (index a (fst e)) (snd e))"
| "lists_fit (VMapSlice a) (VMapSlice b) =
     (length b \<le> length a \<and>
      (\<forall>p \<in> set (zip a b). lists_fit (VMap (fst p)) (VMap (snd p))))"
| "lists_fit (VSlice a) (VSlice b) =
     (\<forall>p \<in> set (zip a b).
        case fst p of
          VMap x \<Rightarrow> (case snd p of VMap y \<Rightarrow> lists_fit (fst p) (snd p) | _ \<Rightarrow> True)
        | _ \<Rightarrow> True)"
| "lists_fit VNil v = True"
| "lists_fit (VOther x) v = True"
| "lists_fit lk VNil = True"
| "lists_fit lk (VOther x) = True"
| "lists_fit (VMap a) (VMapSlice b) = True"
| "lists_fit (VMap a) (VSlice b) = True"
| "lists_fit (VMapSlice a) (VMap b) = True"
| "lists_fit (VMapSlice a) (VSlice b) = True"
| "lists_fit (VSlice a) (VMap b) = True"
| "lists_fit (VSlice a) (VMapSlice b) = True"
  by pat_completeness auto
termination
proof (relation "measure (\<lambda>(lk, v). size v)", goal_cases)
  case 1
  show ?case by simp
next
  case (2 a b e)
  then show ?case using size_snd_mem[of e b] by simp
next
  case (3 a b p)
  then have "snd p \<in> set b" by (metis prod.collapse set_zip_rightD)
  then show ?case
    using size_list_mem[of "snd p" b "size_list (size_prod (\<lambda>_. 0) size)"] by simp
next
  case (4 a b p x y)
  then have "snd p \<in> set b" by (metis prod.collapse set_zip_rightD)
  then show ?case using size_list_mem[of "snd p" b size] by (simp add: case_prod_beta)
qed

text \<open>
  Modelled from the spec: the label function, the serializer and the renderer, which are
  not in this source file. They serve the instances below only; the theorems hold for
  all collaborators. \<open>sample get\<close> puts around a given cluster accessor a constant
  label, a serializer that writes the empty map as \<open>{}\<close> and a newline (the
  canonical empty-object text of the spec) and any other map as its top-level keys, one
  per line, and a renderer that yields the label when the two texts differ and the
  empty string when they are equal.
\<close>

definition sample :: "(string tree \<Rightarrow> string tree \<times> goerr option) \<Rightarrow> string externals" where
  "sample get =
     \<lparr>DiffName = (\<lambda>m. ''manifest''),
      Get = get,
      String = (\<lambda>m. if m = [] then ''{}'' @ newline
                     else concat (map (\<lambda>e. fst e @ '':'' @ newline) m)),
      DiffStr = (\<lambda>n a b. Inr (if a = b then [] else n))\<rparr>"

section \<open>Basic facts\<close>

subsection \<open>The equations of \<open>subset\<close> and of the type switch\<close>

declare subset.simps [simp del] switch_type.simps [simp del]

lemma subset_forced: "subset d l = range_cluster d (force_apiVersion d (force_namespace d l))"
  by (simp add: subset.simps force_namespace_def force_apiVersion_def Let_def)

lemma switch_type_VMap [simp]:
  "switch_type (VMap a) (VMap b) = (case subset a b of Inl e \<Rightarrow> Inl e | Inr r \<Rightarrow> Inr (VMap r))"
  by (simp add: switch_type.simps)

lemma switch_type_VMapSlice [simp]:
  "switch_type (VMapSlice a) (VMapSlice b) =
     (case range_maps a b of Inl e \<Rightarrow> Inl e | Inr r \<Rightarrow> Inr (VMapSlice r))"
  by (simp add: switch_type.simps)

lemma switch_type_VSlice [simp]:
  "switch_type (VSlice a) (VSlice b) =
     (case range_slice a b of Inl e \<Rightarrow> Inl e | Inr r \<Rightarrow> Inr (VSlice r))"
  by (simp add: switch_type.simps)

lemma switch_type_scalar [simp]:
  "switch_type lk VNil = Inr VNil"
  "switch_type lk (VOther x) = Inr (VOther x)"
  "switch_type VNil v = Inr v"
  "switch_type (VOther y) v = Inr v"
  by (simp_all add: switch_type.simps split: val.splits)

lemma switch_type_mismatch [simp]:
  "switch_type (VMap a) (VMapSlice bs) = Inr (VMapSlice bs)"
  "switch_type (VMap a) (VSlice vs) = Inr (VSlice vs)"
  "switch_type (VMapSlice as) (VMap b) = Inr (VMap b)"
  "switch_type (VMapSlice as) (VSlice vs) = Inr (VSlice vs)"
  "switch_type (VSlice ws) (VMap b) = Inr (VMap b)"
  "switch_type (VSlice ws) (VMapSlice bs) = Inr (VMapSlice bs)"
  by (simp_all add: switch_type.simps)

lemma switch_type_VMap_result:
  "switch_type (VMap a) v = Inr (VMap r) \<Longrightarrow> \<exists>b. v = VMap b \<and> subset a b = Inr r"
  by (cases v) (auto split: sum.splits)

lemma switch_type_VMapSlice_result:
  "switch_type (VMapSlice a) v = Inr (VMapSlice r) \<Longrightarrow> \<exists>b. v = VMapSlice b \<and> range_maps a b = Inr r"
  by (cases v) (auto split: sum.splits)

lemma switch_type_VSlice_result:
  "switch_type (VSlice a) v = Inr (VSlice r) \<Longrightarrow> \<exists>b. v = VSlice b \<and> range_slice a b = Inr r"
  by (cases v) (auto split: sum.splits)

subsection \<open>The entries of the result\<close>

lemma map_of_force_namespace:
  "map_of (force_namespace d l) k =
     (if k = ''namespace'' \<and> index d ''namespace'' \<noteq> VNil then Some (index d ''namespace'') else map_of l k)"
  by (simp add: force_namespace_def update_conv')

lemma map_of_force_apiVersion:
  "map_of (force_apiVersion d l) k =
     (if k = ''apiVersion'' \<and> index d ''apiVersion'' \<noteq> VNil \<and> index l ''apiVersion'' \<noteq> VNil
      then Some (index d ''apiVersion'') else map_of l k)"
  by (simp add: force_apiVersion_def update_conv')

lemma range_cluster_Cons_Inr:
  "range_cluster d ((k, v) # es) = Inr r \<longleftrightarrow>
     (if index d k = VNil then range_cluster d es = Inr r
      else \<exists>w rest. switch_type (index d k) v = Inr w \<and> range_cluster d es = Inr rest \<and> r = (k, w) # rest)"
  by (auto split: sum.splits)

lemma range_cluster_Some:
  "range_cluster d es = Inr r \<Longrightarrow> map_of r k = Some rv \<Longrightarrow>
     index d k \<noteq> VNil \<and> (\<exists>v. map_of es k = Some v \<and> switch_type (index d k) v = Inr rv)"
proof (induction es arbitrary: r)
  case Nil
  then show ?case by simp
next
  case (Cons e es)
  obtain k' v' where e: "e = (k', v')" by (cases e)
  from Cons.prems Cons.IH show ?case
    unfolding e range_cluster_Cons_Inr by (auto split: if_splits)
qed

lemma range_cluster_None:
  "range_cluster d es = Inr r \<Longrightarrow> map_of r k = None \<Longrightarrow> index d k = VNil \<or> map_of es k = None"
proof (induction es arbitrary: r)
  case Nil
  then show ?case by simp
next
  case (Cons e es)
  obtain k' v' where e: "e = (k', v')" by (cases e)
  from Cons.prems Cons.IH show ?case
    unfolding e range_cluster_Cons_Inr by (auto split: if_splits)
qed

lemma keys_map_of: "k \<in> keys m \<longleftrightarrow> map_of m k \<noteq> None"
  by (simp add: keys_def map_of_eq_None_iff)

lemma index_keys: "index m k \<noteq> VNil \<Longrightarrow> k \<in> keys m"
  by (auto simp: index_def keys_map_of split: option.splits)

lemma subset_Some:
  assumes "subset d l = Inr r" and "map_of r k = Some rv"
  shows "index d k \<noteq> VNil \<and> (\<exists>v. switch_type (index d k) v = Inr rv)"
  using range_cluster_Some[OF assms[unfolded subset_forced]] by blast

lemma keys_subset: "subset d l = Inr r \<Longrightarrow> keys r \<subseteq> keys d"
  using subset_Some[of d l r] index_keys[of d] by (auto simp: keys_map_of)

subsection \<open>The elements of the slices\<close>

lemma range_maps_nth:
  "range_maps a b = Inr r \<Longrightarrow>
     length r = length b \<and> length b \<le> length a \<and> (\<forall>i < length b. subset (a ! i) (b ! i) = Inr (r ! i))"
proof (induction b arbitrary: a r)
  case Nil
  then show ?case by simp
next
  case (Cons y b)
  show ?case
  proof (cases a)
    case Nil
    with Cons.prems show ?thesis by simp
  next
    case (Cons x a')
    with Cons.prems obtain z rs where z: "subset x y = Inr z" and rs: "range_maps a' b = Inr rs"
      and r: "r = z # rs"
      by (auto split: sum.splits)
    from Cons.IH[OF rs] z show ?thesis
      unfolding r Cons by (auto simp: nth_Cons split: nat.splits)
  qed
qed

lemma range_slice_nth:
  "range_slice a b = Inr r \<Longrightarrow>
     length r = length b \<and>
     (\<forall>i < length b.
        (\<forall>x y. i < length a \<and> a ! i = VMap x \<and> b ! i = VMap y \<longrightarrow>
                (\<exists>z. subset x y = Inr z \<and> r ! i = VMap z)) \<and>
        ((i < length a \<longrightarrow> (\<forall>x. a ! i \<noteq> VMap x) \<or> (\<forall>y. b ! i \<noteq> VMap y)) \<longrightarrow> r ! i = b ! i))"
proof (induction b arbitrary: a r)
  case Nil
  then show ?case by simp
next
  case (Cons y b)
  show ?case
  proof (cases a)
    case Nil
    with Cons.prems show ?thesis by auto
  next
    case (Cons x a')
    with Cons.prems obtain y' rs where rs: "range_slice a' b = Inr rs" and r: "r = y' # rs"
      and y': "(\<exists>cs ci z. x = VMap cs \<and> y = VMap ci \<and> subset cs ci = Inr z \<and> y' = VMap z) \<or>
               (((\<forall>cs. x \<noteq> VMap cs) \<or> (\<forall>ci. y \<noteq> VMap ci)) \<and> y' = y)"
      by (auto split: sum.splits val.splits)
    from Cons.IH[OF rs] y' show ?thesis
      unfolding r Cons by (auto simp: nth_Cons split: nat.splits)
  qed
qed

lemma range_slice_map:
  assumes "range_slice a b = Inr r" "i < length b" "i < length a" "a ! i = VMap x" "b ! i = VMap y"
  shows "\<exists>z. subset x y = Inr z \<and> r ! i = VMap z"
  using range_slice_nth[OF assms(1)] assms(2-) by blast

lemma range_slice_same:
  assumes "range_slice a b = Inr r" "i < length b"
    and "length a \<le> i \<or> (\<forall>x. a ! i \<noteq> VMap x) \<or> (\<forall>y. b ! i \<noteq> VMap y)"
  shows "r ! i = b ! i"
proof -
  from assms(3) have "i < length a \<longrightarrow> (\<forall>x. a ! i \<noteq> VMap x) \<or> (\<forall>y. b ! i \<noteq> VMap y)"
    by auto
  with range_slice_nth[OF assms(1)] assms(2) show ?thesis by blast
qed

lemma range_slice_length: "range_slice a b = Inr r \<Longrightarrow> length r = length b"
  using range_slice_nth by blast

lemma subset_child:
  assumes "subset d l = Inr r" and "child r s = Some r1" and "child d s = Some d1"
  shows "\<exists>l1. subset d1 l1 = Inr r1"
proof (cases s)
  case (Key k)
  with assms(2,3) have r: "map_of r k = Some (VMap r1)" and d: "index d k = VMap d1"
    by (auto simp: index_def split: option.splits val.splits)
  from subset_Some[OF assms(1) r] d show ?thesis
    by (auto dest: switch_type_VMap_result)
next
  case (KeyMapIdx k i)
  with assms(2,3) obtain rs ds where r: "map_of r k = Some (VMapSlice rs)" and i: "i < length rs"
    and r1: "r1 = rs ! i" and d: "index d k = VMapSlice ds" and d1: "d1 = ds ! i"
    by (auto simp: index_def split: option.splits val.splits if_splits)
  from subset_Some[OF assms(1) r] d obtain bs where "range_maps ds bs = Inr rs"
    by (auto dest: switch_type_VMapSlice_result)
  from range_maps_nth[OF this] i show ?thesis
    unfolding r1 d1 by auto
next
  case (KeyIdx k i)
  with assms(2,3) obtain rs ds where r: "map_of r k = Some (VSlice rs)" and i: "i < length rs"
    and r1: "rs ! i = VMap r1" and d: "index d k = VSlice ds" and id: "i < length ds"
    and d1: "ds ! i = VMap d1"
    by (auto simp: index_def split: option.splits val.splits if_splits)
  from subset_Some[OF assms(1) r] d obtain bs where bs: "range_slice ds bs = Inr rs"
    by (auto dest: switch_type_VSlice_result)
  from range_slice_length[OF bs] i have ib: "i < length bs" by simp
  show ?thesis
  proof (cases "\<exists>y. bs ! i = VMap y")
    case True
    then obtain y where "bs ! i = VMap y" ..
    from range_slice_map[OF bs ib id d1 this] r1 show ?thesis by auto
  next
    case False
    with range_slice_same[OF bs ib] r1 show ?thesis by metis
  qed
qed

subsection \<open>A value reduced against itself\<close>

lemma index_Some: "index m k \<noteq> VNil \<Longrightarrow> map_of m k = Some (index m k)"
  by (auto simp: index_def split: option.splits)

lemma index_force_namespace:
  "index (force_namespace d l) k =
     (if k = ''namespace'' \<and> index d ''namespace'' \<noteq> VNil then index d ''namespace'' else index l k)"
  by (simp add: index_def map_of_force_namespace)

lemma index_force_apiVersion:
  "index (force_apiVersion d l) k =
     (if k = ''apiVersion'' \<and> index d ''apiVersion'' \<noteq> VNil \<and> index l ''apiVersion'' \<noteq> VNil
      then index d ''apiVersion'' else index l k)"
  by (simp add: index_def map_of_force_apiVersion)

lemma force_self [simp]: "force_namespace m m = m" "force_apiVersion m m = m"
  by (auto simp: force_namespace_def force_apiVersion_def dest: index_Some intro: update_triv)

lemma range_cluster_keeps:
  assumes "range_cluster d es = Inr r" "map_of es k = Some v" "index d k \<noteq> VNil"
  shows "\<exists>rv. map_of r k = Some rv \<and> switch_type (index d k) v = Inr rv"
proof (cases "map_of r k")
  case None
  with range_cluster_None[OF assms(1) None] assms(2,3) show ?thesis by simp
next
  case (Some rv)
  with range_cluster_Some[OF assms(1) Some] assms(2) show ?thesis by auto
qed

lemma range_cluster_absent:
  assumes "range_cluster d es = Inr r" "map_of es k = None"
  shows "map_of r k = None"
  using range_cluster_Some[OF assms(1), of k] assms(2) by (cases "map_of r k") auto

lemma range_cluster_self:
  assumes "\<forall>e \<in> set es. map_of d (fst e) = Some (snd e) \<and> snd e \<noteq> VNil
             \<and> switch_type (snd e) (snd e) = Inr (snd e)"
  shows "range_cluster d es = Inr es"
  using assms
proof (induction es)
  case Nil
  then show ?case by simp
next
  case (Cons e es)
  obtain k v where e: "e = (k, v)" by (cases e)
  from Cons.prems e have "index d k = v" "v \<noteq> VNil" "switch_type v v = Inr v"
    by (auto simp: index_def)
  with Cons e show ?case by simp
qed

lemma range_cluster_self_safe:
  assumes "\<forall>e \<in> set es. map_of d (fst e) = Some (snd e) \<and> (\<exists>w. switch_type (snd e) (snd e) = Inr w)"
  shows "\<exists>r. range_cluster d es = Inr r"
  using assms
proof (induction es)
  case Nil
  then show ?case by simp
next
  case (Cons e es)
  obtain k v where e: "e = (k, v)" by (cases e)
  from Cons.prems e obtain w where "index d k = v" "switch_type v v = Inr w"
    by (auto simp: index_def)
  moreover from Cons obtain r where "range_cluster d es = Inr r" by auto
  ultimately show ?case unfolding e by (cases "v = VNil") auto
qed

lemma subset_self:
  assumes "distinct (map fst m)"
    and "\<forall>e \<in> set m. snd e \<noteq> VNil \<and> switch_type (snd e) (snd e) = Inr (snd e)"
  shows "subset m m = Inr m"
proof -
  have "\<forall>e \<in> set m. map_of m (fst e) = Some (snd e)"
    using assms(1) by (auto simp: map_of_eq_Some_iff)
  with assms(2) show ?thesis
    unfolding subset_forced by (simp add: range_cluster_self)
qed

lemma subset_self_safe:
  assumes "distinct (map fst m)"
    and "\<forall>e \<in> set m. \<exists>w. switch_type (snd e) (snd e) = Inr w"
  shows "\<exists>r. subset m m = Inr r"
proof -
  have "\<forall>e \<in> set m. map_of m (fst e) = Some (snd e)"
    using assms(1) by (auto simp: map_of_eq_Some_iff)
  with assms(2) show ?thesis
    unfolding subset_forced by (simp add: range_cluster_self_safe)
qed

lemma range_maps_self:
  "\<forall>m \<in> set ms. subset m m = Inr m \<Longrightarrow> range_maps ms ms = Inr ms"
  by (induction ms) auto

lemma range_maps_self_safe:
  "\<forall>m \<in> set ms. \<exists>r. subset m m = Inr r \<Longrightarrow> \<exists>rs. range_maps ms ms = Inr rs"
  by (induction ms) auto

lemma range_slice_self:
  "\<forall>v \<in> set vs. \<forall>m. v = VMap m \<longrightarrow> subset m m = Inr m \<Longrightarrow> range_slice vs vs = Inr vs"
  by (induction vs) (auto split: val.splits)

lemma range_slice_self_safe:
  "\<forall>v \<in> set vs. \<forall>m. v = VMap m \<longrightarrow> (\<exists>r. subset m m = Inr r) \<Longrightarrow> \<exists>rs. range_slice vs vs = Inr rs"
  by (induction vs) (auto split: val.splits)

lemma switch_type_self:
  "distinct_keys v \<Longrightarrow> null_free v \<Longrightarrow> switch_type v v = Inr v"
proof (induction v)
  case (VMap m)
  then have "subset m m = Inr m"
    by (intro subset_self) (auto simp: snds.simps)
  then show ?case by simp
next
  case (VMapSlice ms)
  then have "\<forall>m \<in> set ms. subset m m = Inr m"
    by (auto intro!: subset_self simp: snds.simps)
  then show ?case by (simp add: range_maps_self)
next
  case (VSlice vs)
  then have "\<forall>v \<in> set vs. \<forall>m. v = VMap m \<longrightarrow> subset m m = Inr m"
    by (fastforce split: sum.splits)
  then show ?case by (simp add: range_slice_self)
qed simp_all

lemma switch_type_self_safe:
  "distinct_keys v \<Longrightarrow> \<exists>w. switch_type v v = Inr w"
proof (induction v)
  case (VMap m)
  then have "\<exists>r. subset m m = Inr r"
    by (intro subset_self_safe) (auto simp: snds.simps)
  then show ?case by auto
next
  case (VMapSlice ms)
  then have "\<forall>m \<in> set ms. \<exists>r. subset m m = Inr r"
    by (auto intro!: subset_self_safe simp: snds.simps)
  from range_maps_self_safe[OF this] show ?case by auto
next
  case (VSlice vs)
  then have "\<forall>v \<in> set vs. \<forall>m. v = VMap m \<longrightarrow> (\<exists>r. subset m m = Inr r)"
    by (fastforce split: sum.splits)
  from range_slice_self_safe[OF this] show ?case by auto
qed simp_all

subsection \<open>The desired tree is read through its index expression\<close>

lemma range_cluster_cong_index:
  "(\<And>k. index d k = index d' k) \<Longrightarrow> range_cluster d es = range_cluster d' es"
  by (induction es) (auto split: sum.splits)

lemma subset_cong_index:
  assumes "\<And>k. index d k = index d' k"
  shows "subset d l = subset d' l"
proof -
  have "force_namespace d l = force_namespace d' l"
    by (simp add: force_namespace_def assms)
  moreover have "force_apiVersion d l' = force_apiVersion d' l'" for l'
    by (simp add: force_apiVersion_def assms)
  ultimately show ?thesis
    unfolding subset_forced using range_cluster_cong_index[of d d'] assms by simp
qed

lemma index_delete: "index (AList.delete k m) k' = (if k' = k then VNil else index m k')"
  by (simp add: index_def delete_conv')

lemma switch_type_nil_iff: "switch_type lk v = Inr w \<Longrightarrow> w = VNil \<longleftrightarrow> v = VNil"
  by (cases v; cases lk) (auto split: sum.splits)

subsection \<open>A reduced tree is a fixed point\<close>

lemma range_cluster_update:
  assumes "range_cluster d es = Inr r" "map_of es k = Some v"
    and "switch_type (index d k) w = switch_type (index d k) v"
  shows "range_cluster d (AList.update k w es) = Inr r"
  using assms
proof (induction es arbitrary: r)
  case Nil
  then show ?case by simp
next
  case (Cons e es)
  obtain k' v' where e: "e = (k', v')" by (cases e)
  show ?case
  proof (cases "k' = k")
    case True
    with Cons.prems(2) e have "v' = v" by simp
    with True e Cons.prems(3)
    have "range_cluster d (AList.update k w (e # es)) = range_cluster d (e # es)" by simp
    with Cons.prems(1) show ?thesis by simp
  next
    case False
    with Cons.prems e have m: "map_of es k = Some v" by simp
    show ?thesis
    proof (cases "index d k' = VNil")
      case True
      with Cons.prems(1) e have "range_cluster d es = Inr r" by simp
      from Cons.IH[OF this m Cons.prems(3)] True False e show ?thesis by simp
    next
      case nonnil: False
      with Cons.prems(1)[unfolded e range_cluster_Cons_Inr]
      obtain w' rest where w': "switch_type (index d k') v' = Inr w'"
        and rest: "range_cluster d es = Inr rest" and r: "r = (k', w') # rest"
        by auto
      from Cons.IH[OF rest m Cons.prems(3)] nonnil False e w' r show ?thesis by simp
    qed
  qed
qed

lemma range_cluster_fixed:
  assumes "range_cluster d r = Inr r" "map_of r k = Some v"
  shows "index d k \<noteq> VNil \<and> switch_type (index d k) v = Inr v"
  using range_cluster_Some[OF assms(1) assms(2)] assms(2) by auto

lemma subset_fixed:
  assumes first: "range_cluster d (force_apiVersion d (force_namespace d l)) = Inr r"
    and fixed: "range_cluster d r = Inr r"
  shows "subset d r = Inr r"
proof -
  let ?l1 = "force_namespace d l"
  let ?l2 = "force_apiVersion d ?l1"
  let ?r1 = "force_namespace d r"
  have r1: "range_cluster d ?r1 = Inr r"
  proof (cases "index d ''namespace'' = VNil")
    case True
    with fixed show ?thesis by (simp add: force_namespace_def)
  next
    case False
    then have "map_of ?l2 ''namespace'' = Some (index d ''namespace'')"
      by (simp add: map_of_force_apiVersion map_of_force_namespace)
    from range_cluster_keeps[OF first this False] obtain v where
      v: "map_of r ''namespace'' = Some v"
        "switch_type (index d ''namespace'') (index d ''namespace'') = Inr v"
      by blast
    from range_cluster_fixed[OF fixed v(1)] v(2)
    have "switch_type (index d ''namespace'') (index d ''namespace'')
            = switch_type (index d ''namespace'') v" by simp
    from range_cluster_update[OF fixed v(1) this] False show ?thesis
      by (simp add: force_namespace_def)
  qed
  have api_r1: "map_of ?r1 ''apiVersion'' = map_of r ''apiVersion''"
    by (simp add: map_of_force_namespace)
  have "range_cluster d (force_apiVersion d ?r1) = Inr r"
  proof (cases "index d ''apiVersion'' \<noteq> VNil \<and> index ?r1 ''apiVersion'' \<noteq> VNil")
    case False
    with r1 show ?thesis by (auto simp: force_apiVersion_def)
  next
    case True
    then have dn: "index d ''apiVersion'' \<noteq> VNil" and rn: "index r ''apiVersion'' \<noteq> VNil"
      by (simp_all add: index_force_namespace)
    from rn obtain v where v: "map_of r ''apiVersion'' = Some v" and vn: "v \<noteq> VNil"
      by (auto simp: index_def split: option.splits)
    from range_cluster_Some[OF first v] obtain u where
      u: "map_of ?l2 ''apiVersion'' = Some u" "switch_type (index d ''apiVersion'') u = Inr v"
      by blast
    from switch_type_nil_iff[OF u(2)] vn have un: "u \<noteq> VNil" by simp
    have "u = index d ''apiVersion''"
    proof (rule ccontr)
      assume neq: "u \<noteq> index d ''apiVersion''"
      with u(1) have "map_of ?l1 ''apiVersion'' = Some u"
        by (auto simp: map_of_force_apiVersion split: if_splits)
      then have "index ?l1 ''apiVersion'' = u" by (simp add: index_def)
      with un dn u(1) neq show False by (simp add: map_of_force_apiVersion)
    qed
    with u(2) have "switch_type (index d ''apiVersion'') (index d ''apiVersion'') = Inr v" by simp
    with range_cluster_fixed[OF fixed v]
    have "switch_type (index d ''apiVersion'') (index d ''apiVersion'')
            = switch_type (index d ''apiVersion'') v" by simp
    from range_cluster_update[OF r1 _ this] v api_r1 True show ?thesis
      by (simp add: force_apiVersion_def)
  qed
  then show ?thesis by (simp add: subset_forced)
qed

lemma idempotent_all:
  fixes d0 d :: "'a tree" and lk :: "'a val" and a :: "'a tree list" and a' :: "'a val list"
  shows "subset d0 l0 = Inr r \<Longrightarrow> subset d0 r = Inr r"
    and "range_cluster d es = Inr r' \<Longrightarrow> range_cluster d r' = Inr r'"
    and "switch_type lk v = Inr w \<Longrightarrow> switch_type lk w = Inr w"
    and "range_maps a b = Inr rs \<Longrightarrow> range_maps a rs = Inr rs"
    and "range_slice a' b' = Inr rs' \<Longrightarrow> range_slice a' rs' = Inr rs'"
proof (induction d0 l0 and d es and lk v and a b and a' b'
         arbitrary: r and r' and w and rs and rs'
         rule: subset_range_cluster_switch_type_range_maps_range_slice.induct)
  case (1 d0 l0)
  from "1.prems" have first:
    "range_cluster d0 (force_apiVersion d0 (force_namespace d0 l0)) = Inr r"
    by (simp add: subset_forced)
  have "range_cluster d0 r = Inr r"
    by (rule "1.IH"[OF refl refl first[unfolded force_namespace_def force_apiVersion_def]])
  with first show ?case by (rule subset_fixed)
next
  case (2 d0)
  then show ?case by simp
next
  case (3 d0 k v rest)
  show ?case
  proof (cases "index d0 k = VNil")
    case True
    with "3.prems" "3.IH"(1) show ?thesis by simp
  next
    case False
    with "3.prems"[unfolded range_cluster_Cons_Inr]
    obtain w rest' where w: "switch_type (index d0 k) v = Inr w"
      and rest': "range_cluster d0 rest = Inr rest'" and r': "r' = (k, w) # rest'"
      by auto
    from "3.IH"(2)[OF False w] "3.IH"(3)[OF False w rest'] False show ?thesis
      unfolding r' by simp
  qed
next
  case (4 lk v)
  show ?case
  proof (cases v)
    case (VMap b)
    show ?thesis
    proof (cases lk)
      case (VMap a)
      with \<open>v = VMap b\<close> "4.prems" "4.IH"(1) show ?thesis by (auto split: sum.splits)
    qed (use \<open>v = VMap b\<close> "4.prems" in auto)
  next
    case (VMapSlice b)
    show ?thesis
    proof (cases lk)
      case (VMapSlice a)
      with \<open>v = VMapSlice b\<close> "4.prems" "4.IH"(2) show ?thesis by (auto split: sum.splits)
    qed (use \<open>v = VMapSlice b\<close> "4.prems" in auto)
  next
    case (VSlice b)
    show ?thesis
    proof (cases lk)
      case (VSlice a)
      with \<open>v = VSlice b\<close> "4.prems" "4.IH"(3) show ?thesis by (auto split: sum.splits)
    qed (use \<open>v = VSlice b\<close> "4.prems" in auto)
  qed (use "4.prems" in auto)
next
  case (5 a)
  then show ?case by simp
next
  case (6 y b)
  then show ?case by simp
next
  case (7 x a y b)
  then show ?case by (auto split: sum.splits)
next
  case (8 a)
  then show ?case by simp
next
  case (9 y b)
  then show ?case by auto
next
  case (10 x a y b)
  show ?case
  proof (cases "\<exists>cs ci. x = VMap cs \<and> y = VMap ci")
    case True
    then obtain cs ci where xy: "x = VMap cs" "y = VMap ci" by blast
    with "10.prems" obtain z rest where z: "subset cs ci = Inr z"
      and rest: "range_slice a b = Inr rest" and rs': "rs' = VMap z # rest"
      by (auto split: sum.splits)
    from "10.IH"(5)[OF xy z] "10.IH"(6)[OF xy z rest] xy show ?thesis
      unfolding rs' by simp
  next
    case False
    with "10.prems" obtain rest where rest: "range_slice a b = Inr rest" and rs': "rs' = y # rest"
      by (auto split: sum.splits val.splits)
    have "range_slice a rest = Inr rest"
      using False "10.IH"(1,2,3,4,7,8,9,10) rest by (cases x; cases y) auto
    with False show ?thesis unfolding rs' by (cases x; cases y) auto
  qed
qed

subsection \<open>When \<open>subset\<close> returns\<close>


lemma distinct_keys_index: "distinct_keys (VMap m) \<Longrightarrow> distinct_keys (index m k)"
  by (auto simp: index_def split: option.splits dest!: map_of_SomeD)

lemma index_mem: "distinct (map fst m) \<Longrightarrow> e \<in> set m \<Longrightarrow> index m (fst e) = snd e"
  by (cases e) (simp add: index_def)

lemma lists_fit_map_refl:
  assumes "distinct (map fst m)" and "\<forall>e \<in> set m. lists_fit (snd e) (snd e)"
  shows "lists_fit (VMap m) (VMap m)"
  using assms by (simp add: index_mem)

lemma lists_fit_refl: "distinct_keys v \<Longrightarrow> lists_fit v v"
proof (induction v)
  case (VMap m)
  then show ?case by (intro lists_fit_map_refl) (auto simp: snds.simps)
next
  case (VMapSlice ms)
  have "lists_fit (VMap m) (VMap m)" if m: "m \<in> set ms" for m
  proof (rule lists_fit_map_refl)
    from m VMapSlice.prems show "distinct (map fst m)" by simp
    from m VMapSlice show "\<forall>e \<in> set m. lists_fit (snd e) (snd e)"
      by (auto simp: snds.simps)
  qed
  then show ?case by (simp add: zip_same_conv_map)
next
  case (VSlice vs)
  then have "\<forall>x \<in> set vs. lists_fit x x" by simp
  then show ?case
    unfolding lists_fit.simps(3) zip_same_conv_map
    by (auto split: val.splits simp del: lists_fit.simps)
qed simp_all

lemma set_update_subset: "set (AList.update k v m) \<subseteq> insert (k, v) (set m)"
  by (induction m) auto

lemma set_forced:
  "set (force_apiVersion d (force_namespace d l)) \<subseteq>
     insert (''apiVersion'', index d ''apiVersion'')
       (insert (''namespace'', index d ''namespace'') (set l))"
proof -
  have "set (force_namespace d l) \<subseteq> insert (''namespace'', index d ''namespace'') (set l)"
    using set_update_subset[of "''namespace''" "index d ''namespace''" l]
    by (auto simp: force_namespace_def)
  moreover have "set (force_apiVersion d l') \<subseteq> insert (''apiVersion'', index d ''apiVersion'') (set l')"
    for l'
    using set_update_subset[of "''apiVersion''" "index d ''apiVersion''" l']
    by (auto simp: force_apiVersion_def)
  ultimately show ?thesis by blast
qed

lemma no_panic_all:
  fixes d0 d :: "'a tree" and lk :: "'a val" and a :: "'a tree list" and a' :: "'a val list"
  shows "distinct_keys (VMap d0) \<Longrightarrow> lists_fit (VMap d0) (VMap l0) \<Longrightarrow> \<exists>r. subset d0 l0 = Inr r"
    and "distinct_keys (VMap d) \<Longrightarrow> \<forall>e \<in> set es. lists_fit (index d (fst e)) (snd e)
           \<Longrightarrow> \<exists>r. range_cluster d es = Inr r"
    and "distinct_keys lk \<Longrightarrow> lists_fit lk v \<Longrightarrow> \<exists>w. switch_type lk v = Inr w"
    and "\<forall>m \<in> set a. distinct_keys (VMap m) \<Longrightarrow> length b \<le> length a
           \<Longrightarrow> \<forall>p \<in> set (zip a b). lists_fit (VMap (fst p)) (VMap (snd p))
           \<Longrightarrow> \<exists>rs. range_maps a b = Inr rs"
    and "\<forall>x \<in> set a'. distinct_keys x
           \<Longrightarrow> \<forall>p \<in> set (zip a' b').
                 (case fst p of
                    VMap x \<Rightarrow> (case snd p of VMap y \<Rightarrow> lists_fit (fst p) (snd p) | _ \<Rightarrow> True)
                  | _ \<Rightarrow> True)
           \<Longrightarrow> \<exists>rs. range_slice a' b' = Inr rs"
proof (induction d0 l0 and d es and lk v and a b and a' b'
         rule: subset_range_cluster_switch_type_range_maps_range_slice.induct)
  case (1 d0 l0)
  let ?l = "force_apiVersion d0 (force_namespace d0 l0)"
  have "lists_fit (index d0 (fst e)) (snd e)" if "e \<in> set ?l" for e
  proof -
    from that set_forced[of d0 l0]
    consider "e \<in> set l0" | "e = (''namespace'', index d0 ''namespace'')"
      | "e = (''apiVersion'', index d0 ''apiVersion'')" by auto
    then show ?thesis
    proof cases
      case 1
      with "1.prems"(2) show ?thesis by simp
    next
      case 2
      with distinct_keys_index[OF "1.prems"(1)] show ?thesis by (simp add: lists_fit_refl)
    next
      case 3
      with distinct_keys_index[OF "1.prems"(1)] show ?thesis by (simp add: lists_fit_refl)
    qed
  qed
  then have "\<exists>r. range_cluster d0 ?l = Inr r"
    using "1.IH"[OF refl refl "1.prems"(1)]
    unfolding force_namespace_def force_apiVersion_def by blast
  then show ?case by (simp add: subset_forced)
next
  case (2 d)
  then show ?case by simp
next
  case (3 d k v rest)
  show ?case
  proof (cases "index d k = VNil")
    case True
    with 3 show ?thesis by simp
  next
    case False
    from "3.prems" have "lists_fit (index d k) v" by simp
    from "3.IH"(2)[OF False distinct_keys_index[OF "3.prems"(1)] this]
    obtain w where w: "switch_type (index d k) v = Inr w" ..
    from "3.IH"(3)[OF False w "3.prems"(1)] "3.prems"(2)
    obtain r where "range_cluster d rest = Inr r" by auto
    with w False show ?thesis by simp
  qed
next
  case (4 lk v)
  show ?case
  proof (cases v)
    case (VMap b)
    show ?thesis
    proof (cases lk)
      case (VMap a)
      with \<open>v = VMap b\<close> "4.prems" "4.IH"(1) show ?thesis by fastforce
    qed (use \<open>v = VMap b\<close> in auto)
  next
    case (VMapSlice b)
    show ?thesis
    proof (cases lk)
      case (VMapSlice a)
      with \<open>v = VMapSlice b\<close> "4.prems" "4.IH"(2)[of b a] show ?thesis by fastforce
    qed (use \<open>v = VMapSlice b\<close> in auto)
  next
    case (VSlice b)
    show ?thesis
    proof (cases lk)
      case (VSlice a)
      with \<open>v = VSlice b\<close> "4.prems" "4.IH"(3)[of b a] show ?thesis by fastforce
    qed (use \<open>v = VSlice b\<close> in auto)
  qed auto
next
  case (5 a)
  then show ?case by simp
next
  case (6 y b)
  then show ?case by simp
next
  case (7 x a y b)
  from "7.prems" "7.IH"(1) obtain z where z: "subset x y = Inr z" by auto
  from "7.IH"(2)[OF z] "7.prems" obtain rs where "range_maps a b = Inr rs" by auto
  with z show ?case by simp
next
  case (8 a)
  then show ?case by simp
next
  case (9 y b)
  then show ?case by simp
next
  case (10 x a y b)
  show ?case
  proof (cases "\<exists>cs ci. x = VMap cs \<and> y = VMap ci")
    case True
    then obtain cs ci where xy: "x = VMap cs" "y = VMap ci" by blast
    from "10.IH"(5)[OF xy] "10.prems" xy obtain z where z: "subset cs ci = Inr z" by auto
    from "10.IH"(6)[OF xy z] "10.prems" obtain rs where "range_slice a b = Inr rs" by auto
    with xy z show ?thesis by simp
  next
    case False
    have "\<exists>rs. range_slice a b = Inr rs"
      using False "10.IH"(1,2,3,4,7,8,9,10) "10.prems" by (cases x; cases y) auto
    with False show ?thesis by (cases x; cases y) auto
  qed
qed

lemma range_maps_unguarded: "length a < length b \<Longrightarrow> range_maps a b = Inl IndexOutOfRange"
proof (induction b arbitrary: a)
  case Nil
  then show ?case by simp
next
  case (Cons y b)
  show ?case
  proof (cases a)
    case Nil
    then show ?thesis by simp
  next
    case (Cons x a')
    with Cons.prems Cons.IH[of a'] show ?thesis
      by (auto split: sum.splits intro: panic.exhaust)
  qed
qed

subsection \<open>The worker and the receive loop\<close>

lemma subsetDiff_fetched:
  assumes "Get c m = (res, err)" and "err = None \<or> err = Some ErrorNotFound"
    and "subset m (if err = None then res else []) = Inr reduced"
  shows "subsetDiff c m =
           Inr (Inr \<lparr>name = DiffName c m,
                     local = (if String c reduced = ''{}'' @ newline then [] else String c reduced),
                     cluster = String c m\<rparr>)"
  using assms by (auto simp: subsetDiff_def Let_def)

lemma subsetDiff_failed:
  assumes "Get c m = (res, Some err)" and "err \<noteq> ErrorNotFound"
  shows "subsetDiff c m = Inr (Inl (Wrap err ''getting state from cluster''))"
  using assms by (cases err) (auto simp: subsetDiff_def Let_def)

lemma empty_live_returns:
  assumes "distinct_keys (VMap m)"
  shows "\<exists>r. subset m [] = Inr r"
  using assms by (intro no_panic_all(1)) simp_all

lemma join_Inr: "\<forall>w \<in> set ws. \<exists>x. w = Inr x \<Longrightarrow> \<exists>xs. join ws = Inr xs \<and> ws = map Inr xs"
proof (induction ws)
  case Nil
  then show ?case by simp
next
  case (Cons w ws)
  from Cons.prems obtain x where w: "w = Inr x" by auto
  from Cons.prems have "\<forall>w \<in> set ws. \<exists>x. w = Inr x" by simp
  from Cons.IH[OF this] obtain xs where xs: "join ws = Inr xs" "ws = map Inr xs" by blast
  have "join (w # ws) = Inr (x # xs) \<and> w # ws = map Inr (x # xs)" using w xs by simp
  then show ?case by (rule exI)
qed

lemma collect_lastErr:
  "collect msgs docs lastErr = (docs', lastErr') \<Longrightarrow>
   (\<exists>e. Inl e \<in> set msgs) \<or> lastErr \<noteq> None \<Longrightarrow>
   \<exists>e. lastErr' = Some e \<and> (Inl e \<in> set msgs \<or> lastErr = Some e)"
proof (induction msgs arbitrary: docs lastErr)
  case Nil
  then show ?case by auto
next
  case (Cons msg rest)
  show ?case
  proof (cases msg)
    case (Inr d)
    with Cons.prems have c: "collect rest (docs @ [d]) lastErr = (docs', lastErr')"
      and h: "(\<exists>e. Inl e \<in> set rest) \<or> lastErr \<noteq> None"
      by auto
    from Cons.IH[OF c h] Inr show ?thesis by auto
  next
    case (Inl err)
    with Cons.prems have c: "collect rest docs (Some err) = (docs', lastErr')" by simp
    have h: "(\<exists>e. Inl e \<in> set rest) \<or> Some err \<noteq> None" by simp
    from Cons.IH[OF c h] obtain e where e: "lastErr' = Some e"
      and "Inl e \<in> set rest \<or> Some err = Some e" by blast
    then have "Inl e \<in> set (msg # rest)" using Inl by auto
    with e show ?thesis by blast
  qed
qed

lemma arrival_order_set: "arrival_order n order \<Longrightarrow> set order = {..<n}"
proof -
  assume "arrival_order n order"
  then have "mset order = mset [0..<n]" by (simp add: arrival_order_def)
  then have "set order = set [0..<n]" by (rule mset_eq_setD)
  then show ?thesis by (simp add: lessThan_atLeast0)
qed

lemma set_arrivals:
  assumes "arrival_order (length sent) order"
  shows "set (map (\<lambda>i. sent ! i) order) = set sent"
proof -
  have "(\<lambda>i. sent ! i) ` {..<length sent} = set sent"
    by (auto simp: in_set_conv_nth)
  with arrival_order_set[OF assms] show ?thesis by simp
qed

subsection \<open>The loop with the map as its state\<close>

lemma delete_middle:
  "distinct (map fst (p @ (k, v) # es)) \<Longrightarrow> AList.delete k (p @ (k, v) # es) = p @ es"
  by (induction p) auto

lemma update_middle:
  "distinct (map fst (p @ (k, v) # es)) \<Longrightarrow>
     AList.update k w (p @ (k, v) # es) = p @ (k, w) # es"
  by (induction p) auto

lemma range_cluster_in_place_append:
  "distinct (map fst (p @ es)) \<Longrightarrow>
     range_cluster_in_place d es (p @ es) =
       (case range_cluster d es of Inl e \<Rightarrow> Inl e | Inr r \<Rightarrow> Inr (p @ r))"
proof (induction es arbitrary: p)
  case Nil
  then show ?case by simp
next
  case (Cons e es)
  obtain k v where e: "e = (k, v)" by (cases e)
  show ?case
  proof (cases "index d k = VNil")
    case True
    from Cons.prems e have "distinct (map fst (p @ es))" by simp
    from Cons.IH[OF this] True delete_middle[OF Cons.prems[unfolded e]] show ?thesis
      unfolding e by simp
  next
    case False
    show ?thesis
    proof (cases "switch_type (index d k) v")
      case (Inl x)
      with False show ?thesis unfolding e by simp
    next
      case (Inr w)
      from Cons.prems e have "distinct (map fst ((p @ [(k, w)]) @ es))" by simp
      from Cons.IH[OF this] False Inr update_middle[OF Cons.prems[unfolded e], of w]
      show ?thesis unfolding e by (simp split: sum.splits)
    qed
  qed
qed

lemma range_cluster_in_place:
  "distinct (map fst c) \<Longrightarrow> range_cluster_in_place d c c = range_cluster d c"
  using range_cluster_in_place_append[of "[]" c d] by (simp split: sum.splits)

subsection \<open>The result has one entry per key\<close>

lemma range_cluster_keys:
  "range_cluster d es = Inr r \<Longrightarrow> map fst r = filter (\<lambda>k. index d k \<noteq> VNil) (map fst es)"
proof (induction es arbitrary: r)
  case Nil
  then show ?case by simp
next
  case (Cons e es)
  obtain k v where e: "e = (k, v)" by (cases e)
  from Cons.prems Cons.IH show ?case
    unfolding e range_cluster_Cons_Inr by (auto split: if_splits)
qed

lemma distinct_forced:
  "distinct (map fst l) \<Longrightarrow> distinct (map fst (force_apiVersion d (force_namespace d l)))"
  by (simp add: force_namespace_def force_apiVersion_def distinct_update)

lemma subset_distinct:
  assumes "subset d l = Inr r" and "distinct (map fst l)"
  shows "distinct (map fst r)"
proof -
  from assms(1) have "range_cluster d (force_apiVersion d (force_namespace d l)) = Inr r"
    by (simp add: subset_forced)
  from range_cluster_keys[OF this] distinct_forced[OF assms(2), of d] show ?thesis by simp
qed

lemma distinct_keys_VMap_iff:
  "distinct_keys (VMap m) \<longleftrightarrow> distinct (map fst m) \<and> (\<forall>e \<in> set m. distinct_keys (snd e))"
  by simp

lemma distinct_keys_VMapSlice_iff:
  "distinct_keys (VMapSlice ms) \<longleftrightarrow> (\<forall>m \<in> set ms. distinct_keys (VMap m))"
  by simp

lemma distinct_keys_all:
  fixes d0 d :: "'a tree" and lk :: "'a val" and a :: "'a tree list" and a' :: "'a val list"
  shows "distinct_keys (VMap d0) \<Longrightarrow> distinct_keys (VMap l0) \<Longrightarrow> subset d0 l0 = Inr r
           \<Longrightarrow> distinct_keys (VMap r)"
    and "distinct_keys (VMap d) \<Longrightarrow> \<forall>e \<in> set es. distinct_keys (snd e)
           \<Longrightarrow> range_cluster d es = Inr r' \<Longrightarrow> \<forall>e \<in> set r'. distinct_keys (snd e)"
    and "distinct_keys lk \<Longrightarrow> distinct_keys v \<Longrightarrow> switch_type lk v = Inr w \<Longrightarrow> distinct_keys w"
    and "\<forall>m \<in> set a. distinct_keys (VMap m) \<Longrightarrow> \<forall>m \<in> set b. distinct_keys (VMap m)
           \<Longrightarrow> range_maps a b = Inr rs \<Longrightarrow> \<forall>m \<in> set rs. distinct_keys (VMap m)"
    and "\<forall>x \<in> set a'. distinct_keys x \<Longrightarrow> \<forall>x \<in> set b'. distinct_keys x
           \<Longrightarrow> range_slice a' b' = Inr rs' \<Longrightarrow> \<forall>x \<in> set rs'. distinct_keys x"
proof (induction d0 l0 and d es and lk v and a b and a' b'
         arbitrary: r and r' and w and rs and rs'
         rule: subset_range_cluster_switch_type_range_maps_range_slice.induct)
  case (1 d0 l0)
  let ?l = "force_apiVersion d0 (force_namespace d0 l0)"
  from "1.prems"(3) have r: "range_cluster d0 ?l = Inr r" by (simp add: subset_forced)
  have "distinct_keys (snd e)" if "e \<in> set ?l" for e
  proof -
    from that set_forced[of d0 l0]
    consider "e \<in> set l0" | "e = (''namespace'', index d0 ''namespace'')"
      | "e = (''apiVersion'', index d0 ''apiVersion'')" by auto
    then show ?thesis
      using "1.prems"(2) distinct_keys_index[OF "1.prems"(1)] by cases auto
  qed
  then have "\<forall>e \<in> set ?l. distinct_keys (snd e)" by blast
  from "1.IH"[OF refl refl "1.prems"(1) this[unfolded force_namespace_def force_apiVersion_def]
               r[unfolded force_namespace_def force_apiVersion_def]]
  have "\<forall>e \<in> set r. distinct_keys (snd e)" .
  moreover from "1.prems"(2) have "distinct (map fst l0)" by simp
  from subset_distinct[OF "1.prems"(3) this] have "distinct (map fst r)" .
  ultimately show ?case by simp
next
  case (2 d)
  then show ?case by simp
next
  case (3 d k v rest)
  show ?case
  proof (cases "index d k = VNil")
    case True
    with "3.prems" "3.IH"(1) show ?thesis by simp
  next
    case False
    with "3.prems"(3)[unfolded range_cluster_Cons_Inr]
    obtain w rest' where w: "switch_type (index d k) v = Inr w"
      and rest': "range_cluster d rest = Inr rest'" and r': "r' = (k, w) # rest'"
      by auto
    from "3.prems"(2) have v: "distinct_keys v" and rest: "\<forall>e \<in> set rest. distinct_keys (snd e)"
      by simp_all
    from "3.IH"(2)[OF False distinct_keys_index[OF "3.prems"(1)] v w]
      "3.IH"(3)[OF False w "3.prems"(1) rest rest']
    show ?thesis unfolding r' by simp
  qed
next
  case (4 lk v)
  show ?case
  proof (cases v)
    case (VMap b)
    show ?thesis
    proof (cases lk)
      case (VMap a)
      from "4.prems" \<open>v = VMap b\<close> VMap obtain r where r: "subset a b = Inr r" and w: "w = VMap r"
        by (auto split: sum.splits)
      from "4.prems"(1) VMap have da: "distinct_keys (VMap a)" by simp
      from "4.prems"(2) \<open>v = VMap b\<close> have db: "distinct_keys (VMap b)" by simp
      from "4.IH"(1)[OF \<open>v = VMap b\<close> VMap da db r] show ?thesis unfolding w .
    qed (use \<open>v = VMap b\<close> "4.prems" in auto)
  next
    case (VMapSlice b)
    show ?thesis
    proof (cases lk)
      case (VMapSlice a)
      from "4.prems" \<open>v = VMapSlice b\<close> VMapSlice obtain rs where rs: "range_maps a b = Inr rs"
        and w: "w = VMapSlice rs"
        by (auto split: sum.splits)
      from "4.prems"(1) VMapSlice have da: "\<forall>m \<in> set a. distinct_keys (VMap m)" by simp
      from "4.prems"(2) \<open>v = VMapSlice b\<close> have db: "\<forall>m \<in> set b. distinct_keys (VMap m)"
        by simp
      from "4.IH"(2)[OF \<open>v = VMapSlice b\<close> VMapSlice da db rs]
      have "\<forall>m \<in> set rs. distinct_keys (VMap m)" .
      then show ?thesis unfolding w by simp
    qed (use \<open>v = VMapSlice b\<close> "4.prems" in auto)
  next
    case (VSlice b)
    show ?thesis
    proof (cases lk)
      case (VSlice a)
      from "4.prems" \<open>v = VSlice b\<close> VSlice obtain rs where rs: "range_slice a b = Inr rs"
        and w: "w = VSlice rs"
        by (auto split: sum.splits)
      from "4.prems"(1) VSlice have da: "\<forall>x \<in> set a. distinct_keys x" by simp
      from "4.prems"(2) \<open>v = VSlice b\<close> have db: "\<forall>x \<in> set b. distinct_keys x" by simp
      from "4.IH"(3)[OF \<open>v = VSlice b\<close> VSlice da db rs] show ?thesis unfolding w by simp
    qed (use \<open>v = VSlice b\<close> "4.prems" in auto)
  qed (use "4.prems" in auto)
next
  case (5 a)
  then show ?case by simp
next
  case (6 y b)
  then show ?case by simp
next
  case (7 x a y b)
  from "7.prems"(3) obtain z rest where z: "subset x y = Inr z"
    and rest: "range_maps a b = Inr rest" and rs: "rs = z # rest"
    by (auto split: sum.splits)
  from "7.prems"(1,2) have "distinct_keys (VMap x)" "distinct_keys (VMap y)"
    "\<forall>m \<in> set a. distinct_keys (VMap m)" "\<forall>m \<in> set b. distinct_keys (VMap m)"
    by simp_all
  then have "distinct_keys (VMap z)" "\<forall>m \<in> set rest. distinct_keys (VMap m)"
    using "7.IH"(1)[OF _ _ z] "7.IH"(2)[OF z _ _ rest] by blast+
  then show ?case unfolding rs by simp
next
  case (8 a)
  then show ?case by simp
next
  case (9 y b)
  then show ?case by auto
next
  case (10 x a y b)
  from "10.prems"(1,2) have x: "distinct_keys x" and y: "distinct_keys y"
    and a: "\<forall>x \<in> set a. distinct_keys x" and b: "\<forall>x \<in> set b. distinct_keys x"
    by simp_all
  show ?case
  proof (cases "\<exists>cs ci. x = VMap cs \<and> y = VMap ci")
    case True
    then obtain cs ci where xy: "x = VMap cs" "y = VMap ci" by blast
    with "10.prems"(3) obtain z rest where z: "subset cs ci = Inr z"
      and rest: "range_slice a b = Inr rest" and rs': "rs' = VMap z # rest"
      by (auto split: sum.splits)
    from x y xy have "distinct_keys (VMap cs)" "distinct_keys (VMap ci)" by simp_all
    from "10.IH"(5)[OF xy this z] "10.IH"(6)[OF xy z a b rest]
    show ?thesis unfolding rs' by simp
  next
    case False
    with "10.prems"(3) obtain rest where rest: "range_slice a b = Inr rest" and rs': "rs' = y # rest"
      by (auto split: sum.splits val.splits)
    have "\<forall>x \<in> set rest. distinct_keys x"
    proof (cases x)
      case VNil
      from "10.IH"(1)[OF VNil a b rest] show ?thesis .
    next
      case (VOther s)
      from "10.IH"(2)[OF VOther a b rest] show ?thesis .
    next
      case (VMap cs)
      show ?thesis
      proof (cases y)
        case VNil
        from "10.IH"(3)[OF VMap VNil a b rest] show ?thesis .
      next
        case (VOther s)
        from "10.IH"(4)[OF VMap VOther a b rest] show ?thesis .
      next
        case (VMap ci)
        with \<open>x = VMap cs\<close> False show ?thesis by simp
      next
        case (VMapSlice ms)
        from "10.IH"(7)[OF VMap VMapSlice a b rest] show ?thesis .
      next
        case (VSlice vs)
        from "10.IH"(8)[OF VMap VSlice a b rest] show ?thesis .
      qed
    next
      case (VMapSlice ms)
      from "10.IH"(9)[OF VMapSlice a b rest] show ?thesis .
    next
      case (VSlice vs)
      from "10.IH"(10)[OF VSlice a b rest] show ?thesis .
    qed
    with y show ?thesis unfolding rs' by simp
  qed
qed

subsection \<open>The desired tree after the call\<close>

text \<open>
  Under a forced key the desired tree holds, after the call, its value reduced in place.
  The call keeps the keys of the desired tree, and changes nothing in a tree whose maps
  have no entry with a nil value.
\<close>

lemma index_local_after_forced:
  "index d k \<noteq> VNil \<Longrightarrow> k = ''namespace'' \<or> (k = ''apiVersion'' \<and> index l ''apiVersion'' \<noteq> VNil)
   \<Longrightarrow> index (local_after d l) k = reduced_in_place (index d k)"
  by (induction d) (auto simp: index_def)

lemma map_fst_local_after: "map fst (local_after d l) = map fst d"
  by (induction d) auto

lemma reduced_in_place_Inr: "switch_type v v = Inr w \<Longrightarrow> reduced_in_place v = w"
  by (simp add: reduced_in_place_def)

lemma reduced_in_place_null_free:
  "distinct_keys v \<Longrightarrow> null_free v \<Longrightarrow> reduced_in_place v = v"
  by (simp add: reduced_in_place_def switch_type_self)

lemma after_null_free:
  fixes d l :: "'a tree" and dv v :: "'a val" and a b :: "'a tree list" and xs ys :: "'a val list"
  shows "distinct_keys (VMap d) \<and> null_free (VMap d) \<longrightarrow> local_after d l = d"
  and "distinct_keys dv \<and> null_free dv \<longrightarrow> value_after dv v = dv"
  and "distinct_keys (VMapSlice a) \<and> null_free (VMapSlice a) \<longrightarrow> maps_after a b = a"
  and "distinct_keys (VSlice xs) \<and> null_free (VSlice xs) \<longrightarrow> slice_after xs ys = xs"
proof (induction d l and dv v and a b and xs ys rule: local_after_value_after_maps_after_slice_after.induct)
  case (1 cl)
  show ?case by simp
next
  case (2 k dv rest cl)
  show ?case
  proof
    assume a: "distinct_keys (VMap ((k, dv) # rest)) \<and> null_free (VMap ((k, dv) # rest))"
    then have dv: "distinct_keys dv" "null_free dv" "dv \<noteq> VNil"
      and rest: "distinct_keys (VMap rest) \<and> null_free (VMap rest)"
      by auto
    from rest 2(2) have r: "local_after rest cl = rest" by simp
    show "local_after ((k, dv) # rest) cl = (k, dv) # rest"
    proof (cases "k = ''namespace'' \<or> (k = ''apiVersion'' \<and> index cl ''apiVersion'' \<noteq> VNil)")
      case True
      with dv r show ?thesis by (simp add: reduced_in_place_null_free)
    next
      case False
      with 2(1) dv have "value_after dv (index cl k) = dv" by simp
      with False dv r show ?thesis by (simp add: reduced_in_place_null_free)
    qed
  qed
next
  case (3 dv v)
  show ?case
  proof
    assume a: "distinct_keys dv \<and> null_free dv"
    show "value_after dv v = dv"
    proof (cases v)
      case (VMap b)
      show ?thesis
      proof (cases dv)
        case (VMap a')
        with 3(1)[OF \<open>v = VMap b\<close> VMap] a \<open>v = VMap b\<close> show ?thesis by simp
      qed (simp_all add: VMap)
    next
      case (VMapSlice b)
      show ?thesis
      proof (cases dv)
        case (VMapSlice a')
        with 3(2)[OF \<open>v = VMapSlice b\<close> VMapSlice] a \<open>v = VMapSlice b\<close> show ?thesis by simp
      qed (simp_all add: VMapSlice)
    next
      case (VSlice b)
      show ?thesis
      proof (cases dv)
        case (VSlice a')
        with 3(3)[OF \<open>v = VSlice b\<close> VSlice] a \<open>v = VSlice b\<close> show ?thesis by simp
      qed (simp_all add: VSlice)
    qed simp_all
  qed
next
  case (4 a)
  show ?case by simp
next
  case (5 y b)
  show ?case by simp
next
  case (6 x a y b)
  then show ?case by simp
next
  case (7 a)
  show ?case by simp
next
  case (8 y b)
  show ?case by simp
next
  case (9 x a y b)
  show ?case
  proof
    assume a: "distinct_keys (VSlice (x # a)) \<and> null_free (VSlice (x # a))"
    with 9(2) have r: "slice_after a b = a" by simp
    show "slice_after (x # a) (y # b) = x # a"
    proof (cases x)
      case (VMap cs)
      show ?thesis
      proof (cases y)
        case (VMap ci)
        with 9(1)[OF \<open>x = VMap cs\<close> VMap] a \<open>x = VMap cs\<close> r show ?thesis by simp
      qed (simp_all add: VMap r)
    qed (simp_all add: r)
  qed
qed

section \<open>The claims\<close>

subsection \<open>C1: the keys of the reduced tree\<close>

text \<open>
  Claim C1 says that every key at any nesting level of the tree \<open>subset\<close> returns is a
  key of the desired tree at the same position, but for \<open>namespace\<close> and
  \<open>apiVersion\<close>.

  This holds at the positions the reduction pairs, and there with no exception at all
  (the two forced fields are copied from the desired map): for every path \<open>p\<close> of steps
  from a map to a map nested in it (\<open>descend\<close>) that leads to a map in the result and
  to a map in the desired tree, the keys of the first are keys of the second.

  The theorem says nothing of a map of the result that lies where the desired tree has
  no map, and the claim can fail there: when the desired value under a key is not a
  map, the first case of the type switch does nothing (the \<open>ok\<close> guard of line 132)
  and the entry keeps the map the loop found. In the counterexample the desired tree
  holds a scalar under \<open>a\<close> and the live tree a map with the key \<open>x\<close>; the result
  still has \<open>x\<close> under \<open>a\<close>, and the desired tree has the key \<open>x\<close> nowhere.
\<close>

theorem subset_keys_in_desired:
  "subset d l = Inr r \<Longrightarrow> descend r p = Some r' \<Longrightarrow> descend d p = Some d' \<Longrightarrow> keys r' \<subseteq> keys d'"
proof (induction p arbitrary: d l r)
  case Nil
  then show ?case using keys_subset by auto
next
  case (Cons s p)
  from Cons.prems(2,3) obtain r1 d1 where r1: "child r s = Some r1" "descend r1 p = Some r'"
    and d1: "child d s = Some d1" "descend d1 p = Some d'"
    by (auto split: option.splits)
  from subset_child[OF Cons.prems(1) r1(1) d1(1)] obtain l1 where "subset d1 l1 = Inr r1" ..
  from Cons.IH[OF this r1(2) d1(2)] show ?case .
qed

theorem subset_keys_in_desired_witness:
  "subset [(''a'', VOther (1::int)), (''b'', VMap [(''c'', VOther 2), (''d'', VOther 3)])]
          [(''a'', VOther 1), (''b'', VMap [(''c'', VOther 9), (''e'', VOther 5)]), (''f'', VOther 7)]
     = Inr [(''a'', VOther 1), (''b'', VMap [(''c'', VOther 9)])]
   \<and> descend [(''a'', VOther (1::int)), (''b'', VMap [(''c'', VOther 9)])] [Key ''b'']
     = Some [(''c'', VOther 9)]
   \<and> descend [(''a'', VOther (1::int)), (''b'', VMap [(''c'', VOther 2), (''d'', VOther 3)])] [Key ''b'']
     = Some [(''c'', VOther 2), (''d'', VOther 3)]
   \<and> keys [(''c'', VOther (9::int))] \<subseteq> keys [(''c'', VOther (2::int)), (''d'', VOther 3)]"
proof -
  have 1: "subset [(''a'', VOther (1::int)), (''b'', VMap [(''c'', VOther 2), (''d'', VOther 3)])]
          [(''a'', VOther 1), (''b'', VMap [(''c'', VOther 9), (''e'', VOther 5)]), (''f'', VOther 7)]
     = Inr [(''a'', VOther 1), (''b'', VMap [(''c'', VOther 9)])]"
    by (simp add: subset.simps index_def)
  have 2: "descend [(''a'', VOther (1::int)), (''b'', VMap [(''c'', VOther 9)])] [Key ''b'']
     = Some [(''c'', VOther 9)]"
    by simp
  have 3: "descend [(''a'', VOther (1::int)), (''b'', VMap [(''c'', VOther 2), (''d'', VOther 3)])] [Key ''b'']
     = Some [(''c'', VOther 2), (''d'', VOther 3)]"
    by simp
  from subset_keys_in_desired[OF 1 2 3] 1 2 3 show ?thesis by blast
qed

theorem subset_keeps_foreign_keys_counterexample:
  "subset [(''a'', VOther (1::int))] [(''a'', VMap [(''x'', VOther 2)])]
     = Inr [(''a'', VMap [(''x'', VOther 2)])]
   \<and> descend [(''a'', VMap [(''x'', VOther (2::int))])] [Key ''a''] = Some [(''x'', VOther 2)]
   \<and> ''x'' \<in> keys [(''x'', VOther (2::int))]
   \<and> descend [(''a'', VOther (1::int))] [Key ''a''] = None
   \<and> ''x'' \<notin> keys [(''a'', VOther (1::int))]"
  by (simp add: subset.simps index_def keys_def)

subsection \<open>C2: the empty live tree\<close>

text \<open>
  Claim C2 says that \<open>subset\<close> on an empty live tree returns an empty tree, whatever
  the desired tree is.

  Line 116 writes the desired \<open>namespace\<close> into the live tree without asking whether
  the live tree has the key (line 120 asks, for \<open>apiVersion\<close>), and the loop keeps the
  entry. So the result is empty exactly when the desired tree has no non-nil
  \<open>namespace\<close>; in the counterexample it has one, and the result holds it.
\<close>

theorem subset_empty_live:
  "subset d [] = Inr [] \<longleftrightarrow> index d ''namespace'' = VNil"
  by (auto simp: subset_forced force_namespace_def force_apiVersion_def index_def
           split: sum.splits option.splits)

theorem subset_empty_live_witness:
  "subset [(''kind'', VOther ''Pod''), (''metadata'', VMap [(''namespace'', VOther ''default'')])] []
     = Inr []
   \<and> index [(''kind'', VOther ''Pod''), (''metadata'', VMap [(''namespace'', VOther ''default'')])]
        ''namespace'' = VNil"
  using subset_empty_live
    [of "[(''kind'', VOther ''Pod''), (''metadata'', VMap [(''namespace'', VOther ''default'')])]"]
  by (simp add: index_def)

theorem subset_empty_live_counterexample:
  "subset [(''namespace'', VOther ''default'')] [] = Inr [(''namespace'', VOther ''default'')]"
  by (simp add: subset.simps index_def)

subsection \<open>C3: idempotence\<close>

text \<open>
  Claim C3: reducing a reduced tree again against the same desired tree changes nothing.
  When \<open>subset d l\<close> returns \<open>r\<close>, \<open>subset d r\<close> returns \<open>r\<close>; when the first call
  panics there is no second call. Both cases are the one equation below.
\<close>

theorem subset_idempotent:
  "(case subset d l of Inl e \<Rightarrow> Inl e | Inr r \<Rightarrow> subset d r) = subset d l"
  by (cases "subset d l") (auto dest: idempotent_all(1))

theorem subset_idempotent_witness:
  "subset [(''a'', VOther (1::int)), (''b'', VMap [(''c'', VOther 2), (''d'', VOther 3)])]
          [(''a'', VOther 1), (''b'', VMap [(''c'', VOther 9), (''e'', VOther 5)]), (''f'', VOther 7)]
     = Inr [(''a'', VOther 1), (''b'', VMap [(''c'', VOther 9)])]
   \<and> subset [(''a'', VOther (1::int)), (''b'', VMap [(''c'', VOther 2), (''d'', VOther 3)])]
          [(''a'', VOther 1), (''b'', VMap [(''c'', VOther 9)])]
     = Inr [(''a'', VOther 1), (''b'', VMap [(''c'', VOther 9)])]"
proof -
  have 1: "subset [(''a'', VOther (1::int)), (''b'', VMap [(''c'', VOther 2), (''d'', VOther 3)])]
          [(''a'', VOther 1), (''b'', VMap [(''c'', VOther 9), (''e'', VOther 5)]), (''f'', VOther 7)]
     = Inr [(''a'', VOther 1), (''b'', VMap [(''c'', VOther 9)])]"
    by (simp add: subset.simps index_def)
  from subset_idempotent
    [of "[(''a'', VOther (1::int)), (''b'', VMap [(''c'', VOther 2), (''d'', VOther 3)])]"
        "[(''a'', VOther 1), (''b'', VMap [(''c'', VOther 9), (''e'', VOther 5)]), (''f'', VOther 7)]"]
    1
  show ?thesis by simp
qed

subsection \<open>C4: the forced fields\<close>

text \<open>
  Claim C4: when the desired tree has a non-nil \<open>namespace\<close>, the result maps
  \<open>namespace\<close> to the desired tree's \<open>namespace\<close> value, whether or not the live
  tree had the key; when both trees have a non-nil \<open>apiVersion\<close>, the result maps
  \<open>apiVersion\<close> to the desired tree's \<open>apiVersion\<close> value; \<open>apiVersion\<close> is not
  inserted when the live tree lacks it (the last two conjuncts: the key stays absent,
  and a nil value stays nil).

  Lines 116 and 121 store the desired value in the live tree, and the loop keeps the
  entry, so that when \<open>subset\<close> returns the result and the desired tree hold one and
  the same value under the key: the result maps the key to the value of
  \<open>local_after d l\<close>. That value is the one the caller passed in whenever no map
  inside it has an entry with a nil value (\<open>null_free\<close>), as is the case of every
  scalar, and of every string in particular. The loop deletes such entries (line 126)
  from the stored value, which is the desired tree's own: the third instance below has a
  map with one nil entry under \<open>namespace\<close>, and after the call both the result and
  the desired tree hold the empty map there.
\<close>

theorem subset_forced_fields:
  assumes "subset d l = Inr r"
  shows "(index d ''namespace'' \<noteq> VNil \<longrightarrow>
            map_of r ''namespace'' = Some (index (local_after d l) ''namespace'') \<and>
            (distinct_keys (index d ''namespace'') \<and> null_free (index d ''namespace'') \<longrightarrow>
               map_of r ''namespace'' = Some (index d ''namespace''))) \<and>
         (index d ''apiVersion'' \<noteq> VNil \<and> index l ''apiVersion'' \<noteq> VNil \<longrightarrow>
            map_of r ''apiVersion'' = Some (index (local_after d l) ''apiVersion'') \<and>
            (distinct_keys (index d ''apiVersion'') \<and> null_free (index d ''apiVersion'') \<longrightarrow>
               map_of r ''apiVersion'' = Some (index d ''apiVersion''))) \<and>
         (map_of l ''apiVersion'' = None \<longrightarrow> map_of r ''apiVersion'' = None) \<and>
         (index l ''apiVersion'' = VNil \<longrightarrow> index r ''apiVersion'' = VNil)"
proof -
  let ?l = "force_apiVersion d (force_namespace d l)"
  from assms have r: "range_cluster d ?l = Inr r" by (simp add: subset_forced)
  have ns: "map_of r ''namespace'' = Some (index (local_after d l) ''namespace'')"
    if "index d ''namespace'' \<noteq> VNil"
  proof -
    from that have "map_of ?l ''namespace'' = Some (index d ''namespace'')"
      by (simp add: map_of_force_apiVersion map_of_force_namespace)
    from range_cluster_keeps[OF r this that] obtain v where
      "map_of r ''namespace'' = Some v"
      "switch_type (index d ''namespace'') (index d ''namespace'') = Inr v"
      by blast
    with that show ?thesis
      by (simp add: index_local_after_forced reduced_in_place_Inr)
  qed
  have api: "map_of r ''apiVersion'' = Some (index (local_after d l) ''apiVersion'')"
    if "index d ''apiVersion'' \<noteq> VNil" "index l ''apiVersion'' \<noteq> VNil"
  proof -
    from that have "map_of ?l ''apiVersion'' = Some (index d ''apiVersion'')"
      by (simp add: map_of_force_apiVersion index_force_namespace)
    from range_cluster_keeps[OF r this that(1)] obtain v where
      "map_of r ''apiVersion'' = Some v"
      "switch_type (index d ''apiVersion'') (index d ''apiVersion'') = Inr v"
      by blast
    with that show ?thesis
      by (simp add: index_local_after_forced reduced_in_place_Inr)
  qed
  have same: "index (local_after d l) k = index d k"
    if "index d k \<noteq> VNil" "k = ''namespace'' \<or> (k = ''apiVersion'' \<and> index l ''apiVersion'' \<noteq> VNil)"
       "distinct_keys (index d k)" "null_free (index d k)" for k
    using that by (simp add: index_local_after_forced reduced_in_place_null_free)
  have none: "map_of r ''apiVersion'' = None" if "map_of l ''apiVersion'' = None"
  proof -
    from that have "map_of ?l ''apiVersion'' = None"
      by (simp add: map_of_force_apiVersion map_of_force_namespace index_force_namespace index_def)
    from range_cluster_absent[OF r this] show ?thesis .
  qed
  have nil: "index r ''apiVersion'' = VNil" if "index l ''apiVersion'' = VNil"
  proof (cases "map_of r ''apiVersion''")
    case None
    then show ?thesis by (simp add: index_def)
  next
    case (Some rv)
    from range_cluster_Some[OF r Some] obtain v where
      v: "map_of ?l ''apiVersion'' = Some v" "switch_type (index d ''apiVersion'') v = Inr rv"
      by blast
    from that have "index ?l ''apiVersion'' = VNil"
      by (simp add: index_force_apiVersion index_force_namespace)
    with v(1) have "v = VNil" by (simp add: index_def)
    with v(2) Some show ?thesis by (simp add: index_def)
  qed
  from ns api none nil same[of "''namespace''"] same[of "''apiVersion''"] show ?thesis
    by simp
qed

theorem subset_forced_fields_witness:
  "subset [(''apiVersion'', VOther ''apps/v1''), (''namespace'', VOther ''prod'')]
          [(''apiVersion'', VOther ''apps/v1beta1''), (''uid'', VOther ''1234'')]
     = Inr [(''apiVersion'', VOther ''apps/v1''), (''namespace'', VOther ''prod'')]
   \<and> index [(''apiVersion'', VOther ''apps/v1''), (''namespace'', VOther ''prod'')] ''namespace''
     = VOther ''prod''
   \<and> index [(''apiVersion'', VOther ''apps/v1''), (''namespace'', VOther ''prod'')] ''apiVersion''
     = VOther ''apps/v1''
   \<and> index [(''apiVersion'', VOther ''apps/v1beta1''), (''uid'', VOther ''1234'')] ''apiVersion''
     = VOther ''apps/v1beta1''
   \<and> distinct_keys (VOther ''prod'') \<and> null_free (VOther ''prod'')
   \<and> distinct_keys (VOther ''apps/v1'') \<and> null_free (VOther ''apps/v1'')
   \<and> local_after [(''apiVersion'', VOther ''apps/v1''), (''namespace'', VOther ''prod'')]
          [(''apiVersion'', VOther ''apps/v1beta1''), (''uid'', VOther ''1234'')]
     = [(''apiVersion'', VOther ''apps/v1''), (''namespace'', VOther ''prod'')]
   \<and> map_of [(''apiVersion'', VOther ''apps/v1''), (''namespace'', VOther ''prod'')] ''namespace''
     = Some (VOther ''prod'')
   \<and> map_of [(''apiVersion'', VOther ''apps/v1''), (''namespace'', VOther ''prod'')] ''apiVersion''
     = Some (VOther ''apps/v1'')
   \<and> subset [(''apiVersion'', VOther ''apps/v1'')] [(''uid'', VOther ''1234'')] = Inr []
   \<and> map_of [(''uid'', VOther ''1234'')] ''apiVersion'' = None
   \<and> map_of ([] :: string tree) ''apiVersion'' = None
   \<and> index [(''uid'', VOther ''1234'')] ''apiVersion'' = VNil
   \<and> index ([] :: string tree) ''apiVersion'' = VNil
   \<and> subset [(''namespace'', VMap [(''a'', VNil)])] ([] :: string tree)
     = Inr [(''namespace'', VMap [])]
   \<and> index [(''namespace'', VMap [(''a'', VNil :: string val)])] ''namespace''
     = VMap [(''a'', VNil)]
   \<and> local_after [(''namespace'', VMap [(''a'', VNil)])] ([] :: string tree)
     = [(''namespace'', VMap [])]
   \<and> map_of [(''namespace'', VMap ([] :: string tree))] ''namespace''
     = Some (index [(''namespace'', VMap ([] :: string tree))] ''namespace'')"
proof -
  have 1: "subset [(''apiVersion'', VOther ''apps/v1''), (''namespace'', VOther ''prod'')]
          [(''apiVersion'', VOther ''apps/v1beta1''), (''uid'', VOther ''1234'')]
     = Inr [(''apiVersion'', VOther ''apps/v1''), (''namespace'', VOther ''prod'')]"
    by (simp add: subset.simps index_def)
  have 2: "subset [(''apiVersion'', VOther ''apps/v1'')] [(''uid'', VOther ''1234'')] = Inr []"
    by (simp add: subset.simps index_def)
  have 3: "subset [(''namespace'', VMap [(''a'', VNil)])] ([] :: string tree)
     = Inr [(''namespace'', VMap [])]"
    by (simp add: subset.simps index_def)
  have 4: "local_after [(''apiVersion'', VOther ''apps/v1''), (''namespace'', VOther ''prod'')]
          [(''apiVersion'', VOther ''apps/v1beta1''), (''uid'', VOther ''1234'')]
     = [(''apiVersion'', VOther ''apps/v1''), (''namespace'', VOther ''prod'')]"
    by (simp add: reduced_in_place_def index_def)
  have 5: "local_after [(''namespace'', VMap [(''a'', VNil)])] ([] :: string tree)
     = [(''namespace'', VMap [])]"
    by (simp add: reduced_in_place_def subset.simps index_def)
  from subset_forced_fields[OF 1] subset_forced_fields[OF 2] subset_forced_fields[OF 3]
    1 2 3 4 5
  show ?thesis
    by (simp add: index_def)
qed

subsection \<open>C5: slices of arbitrary elements\<close>




subsection \<open>C6: the unguarded index into a slice of maps\<close>

text \<open>
  Claim C6: in the branch for \<open>[]map[string]interface{}\<close> the index expression
  \<open>a[i]\<close> of line 138 is not guarded, and \<open>subset\<close> does not run out of range when,
  at every nesting level, the desired slice of maps is at least as long as the live one.

  The first conjunct is the precondition (\<open>lists_fit\<close>): under it \<open>subset\<close> returns a
  tree, for every desired tree that is a Go value (\<open>distinct_keys\<close>);
  \<open>IndexOutOfRange\<close> is the only panic there is. The second conjunct is the missing
  guard: the branch panics whenever the live slice is the longer one.
\<close>

theorem subset_no_panic:
  "(distinct_keys (VMap d) \<and> lists_fit (VMap d) (VMap l) \<longrightarrow> (\<exists>r. subset d l = Inr r)) \<and>
   (length a < length b \<longrightarrow> switch_type (VMapSlice a) (VMapSlice b) = Inl IndexOutOfRange)"
  using no_panic_all(1)[of d l] range_maps_unguarded[of a b] by simp

theorem subset_no_panic_witness:
  "distinct_keys (VMap [(''spec'', VMap [(''containers'',
       VMapSlice [[(''name'', VOther ''web'')], [(''name'', VOther ''log'')]])])])
   \<and> lists_fit
       (VMap [(''spec'', VMap [(''containers'',
          VMapSlice [[(''name'', VOther ''web'')], [(''name'', VOther ''log'')]])])])
       (VMap [(''spec'', VMap [(''containers'',
          VMapSlice [[(''name'', VOther ''web''), (''image'', VOther ''nginx'')]])]),
              (''status'', VOther ''Running'')])
   \<and> subset
       [(''spec'', VMap [(''containers'',
          VMapSlice [[(''name'', VOther ''web'')], [(''name'', VOther ''log'')]])])]
       [(''spec'', VMap [(''containers'',
          VMapSlice [[(''name'', VOther ''web''), (''image'', VOther ''nginx'')]])]),
        (''status'', VOther ''Running'')]
     = Inr [(''spec'', VMap [(''containers'', VMapSlice [[(''name'', VOther ''web'')]])])]
   \<and> length [[(''name'', VOther ''web'')]]
       < length [[(''name'', VOther ''web'')], [(''name'', VOther ''istio'')]]
   \<and> switch_type (VMapSlice [[(''name'', VOther ''web'')]])
         (VMapSlice [[(''name'', VOther ''web'')], [(''name'', VOther ''istio'')]])
     = Inl IndexOutOfRange"
proof -
  have 1: "distinct_keys (VMap [(''spec'', VMap [(''containers'',
       VMapSlice [[(''name'', VOther ''web'')], [(''name'', VOther ''log'')]])])])"
    by simp
  have 2: "lists_fit
       (VMap [(''spec'', VMap [(''containers'',
          VMapSlice [[(''name'', VOther ''web'')], [(''name'', VOther ''log'')]])])])
       (VMap [(''spec'', VMap [(''containers'',
          VMapSlice [[(''name'', VOther ''web''), (''image'', VOther ''nginx'')]])]),
              (''status'', VOther ''Running'')])"
    by (simp add: index_def)
  have 3: "length [[(''name'', VOther ''web'')]]
       < length [[(''name'', VOther ''web'')], [(''name'', VOther ''istio'')]]"
    by simp
  from subset_no_panic
    [of "[(''spec'', VMap [(''containers'',
           VMapSlice [[(''name'', VOther ''web'')], [(''name'', VOther ''log'')]])])]"
        "[(''spec'', VMap [(''containers'',
           VMapSlice [[(''name'', VOther ''web''), (''image'', VOther ''nginx'')]])]),
          (''status'', VOther ''Running'')]"
        "[[(''name'', VOther ''web'')]]"
        "[[(''name'', VOther ''web'')], [(''name'', VOther ''istio'')]]"]
    1 2 3
  show ?thesis by (simp add: subset.simps index_def)
qed

subsection \<open>C7: a manifest that is not in the cluster\<close>

text \<open>
  Claim C7: when \<open>Get\<close> returns the not-found error, the worker goes on with the
  empty map as the live tree and returns a record, not an error; and whenever the text
  of the reduced live tree is \<open>{}\<close> followed by a newline, the record holds the empty
  string in its place.

  The first conjunct is the not-found case: \<open>subset\<close> of the manifest and the empty map
  returns (the manifest being a Go value), and the worker returns the record made of
  that tree. The second is the normalisation, for the live tree of either origin.
\<close>

theorem subsetDiff_not_found:
  "(Get c m = (res, Some ErrorNotFound) \<and> distinct_keys (VMap m) \<longrightarrow>
      (\<exists>reduced. subset m [] = Inr reduced \<and>
         subsetDiff c m =
           Inr (Inr \<lparr>name = DiffName c m,
                     local = (if String c reduced = ''{}'' @ newline then []
                              else String c reduced),
                     cluster = String c m\<rparr>))) \<and>
   (Get c m = (res', err) \<and> (err = None \<or> err = Some ErrorNotFound) \<and>
    subset m (if err = None then res' else []) = Inr reduced' \<and>
    String c reduced' = ''{}'' @ newline \<longrightarrow>
      (\<exists>d. subsetDiff c m = Inr (Inr d) \<and> local d = []))"
proof (intro conjI impI)
  assume a: "Get c m = (res, Some ErrorNotFound) \<and> distinct_keys (VMap m)"
  then obtain reduced where r: "subset m [] = Inr reduced"
    using empty_live_returns by blast
  from a have "Get c m = (res, Some ErrorNotFound)" ..
  from subsetDiff_fetched[OF this] r
  show "\<exists>reduced. subset m [] = Inr reduced \<and>
         subsetDiff c m =
           Inr (Inr \<lparr>name = DiffName c m,
                     local = (if String c reduced = ''{}'' @ newline then []
                              else String c reduced),
                     cluster = String c m\<rparr>)"
    by auto
next
  assume b: "Get c m = (res', err) \<and> (err = None \<or> err = Some ErrorNotFound) \<and>
    subset m (if err = None then res' else []) = Inr reduced' \<and>
    String c reduced' = ''{}'' @ newline"
  then have "subsetDiff c m =
           Inr (Inr \<lparr>name = DiffName c m,
                     local = (if String c reduced' = ''{}'' @ newline then []
                              else String c reduced'),
                     cluster = String c m\<rparr>)"
    by (intro subsetDiff_fetched) auto
  with b show "\<exists>d. subsetDiff c m = Inr (Inr d) \<and> local d = []" by simp
qed

theorem subsetDiff_not_found_witness:
  "Get (sample (\<lambda>m. ([], Some ErrorNotFound)))
       [(''kind'', VOther ''Pod''), (''metadata'', VMap [(''name'', VOther ''web'')])]
     = ([], Some ErrorNotFound)
   \<and> distinct_keys (VMap [(''kind'', VOther ''Pod''), (''metadata'', VMap [(''name'', VOther ''web'')])])
   \<and> subset [(''kind'', VOther ''Pod''), (''metadata'', VMap [(''name'', VOther ''web'')])] []
     = Inr []
   \<and> String (sample (\<lambda>m. ([], Some ErrorNotFound))) [] = ''{}'' @ newline
   \<and> subsetDiff (sample (\<lambda>m. ([], Some ErrorNotFound)))
        [(''kind'', VOther ''Pod''), (''metadata'', VMap [(''name'', VOther ''web'')])]
     = Inr (Inr \<lparr>name = ''manifest'', local = [],
                 cluster = ''kind:'' @ newline @ ''metadata:'' @ newline\<rparr>)"
proof -
  let ?c = "sample (\<lambda>m. ([], Some ErrorNotFound))"
  let ?m = "[(''kind'', VOther ''Pod''), (''metadata'', VMap [(''name'', VOther ''web'')])]"
  have 1: "Get ?c ?m = ([], Some ErrorNotFound)" by (simp add: sample_def)
  have 2: "distinct_keys (VMap ?m)" by simp
  have 3: "subset ?m [] = Inr []" by (simp add: subset.simps index_def)
  have 4: "String ?c [] = ''{}'' @ newline" by (simp add: sample_def)
  from subsetDiff_not_found[of ?c ?m "[]" "[]" "Some ErrorNotFound" "[]"] 1 2 3 4
  show ?thesis by (simp add: sample_def)
qed

subsection \<open>C8: one failing worker fails the diff\<close>

text \<open>
  Claim C8: if at least one worker reports an error, the differ returns a nil string
  and a non-nil error that wraps a reported one, whatever the other workers collected.

  This is so when every worker reports, in whatever order the messages arrive. A worker
  in which \<open>subset\<close> panics reports nothing: nothing in the file recovers the panic,
  which ends the process, and the differ does not return. In the counterexample the
  first worker reports an error and the second panics.
\<close>

theorem SubsetDiffer_error:
  assumes "arrival_order (length state) order"
    and "\<forall>m \<in> set state. \<exists>msg. subsetDiff c m = Inr msg"
    and "\<exists>m \<in> set state. \<exists>e. subsetDiff c m = Inr (Inl e)"
  shows "\<exists>e. (\<exists>m \<in> set state. subsetDiff c m = Inr (Inl e)) \<and>
             SubsetDiffer c order state = Inr (None, Some (Wrap e ''calculating subset''))"
proof -
  from assms(2) have "\<forall>w \<in> set (map (parallelSubsetDiff c) state). \<exists>x. w = Inr x"
    by (auto simp: parallelSubsetDiff_def)
  from join_Inr[OF this] obtain sent where sent: "join (map (parallelSubsetDiff c) state) = Inr sent"
    and msgs: "map (parallelSubsetDiff c) state = map Inr sent" by blast
  from msgs have len: "length sent = length state" by (metis length_map)
  have sent_iff: "x \<in> set sent \<longleftrightarrow> (\<exists>m \<in> set state. subsetDiff c m = Inr x)" for x
  proof -
    from msgs have "set (map (subsetDiff c) state) = set (map Inr sent)"
      by (simp add: parallelSubsetDiff_def[abs_def])
    then have "subsetDiff c ` set state = Inr ` set sent" by simp
    then have "Inr x \<in> subsetDiff c ` set state \<longleftrightarrow> Inr x \<in> (Inr ` set sent :: (panic + goerr + difference) set)"
      by simp
    then show ?thesis by (auto simp: image_iff) metis
  qed
  let ?arrivals = "map (\<lambda>i. sent ! i) order"
  from assms(1) len have "arrival_order (length sent) order" by simp
  then have arr: "set ?arrivals = set sent" by (rule set_arrivals)
  obtain docs lastErr where col: "collect ?arrivals [] None = (docs, lastErr)"
    by (cases "collect ?arrivals [] None")
  from assms(3) sent_iff arr have "\<exists>e. Inl e \<in> set ?arrivals" by blast
  with collect_lastErr[OF col] obtain e where e: "lastErr = Some e" "Inl e \<in> set ?arrivals"
    by auto
  from e(2) arr sent_iff have "\<exists>m \<in> set state. subsetDiff c m = Inr (Inl e)" by blast
  moreover from sent col e(1)
  have "SubsetDiffer c order state = Inr (None, Some (Wrap e ''calculating subset''))"
    by (simp add: SubsetDiffer_def)
  ultimately show ?thesis by blast
qed

theorem SubsetDiffer_error_witness:
  "arrival_order (length [[(''kind'', VOther ''Job'')], [(''kind'', VOther ''Pod'')]]) [1, 0]
   \<and> subsetDiff (sample (\<lambda>m. if m = [(''kind'', VOther ''Job'')]
                              then ([], Some (ErrorOther ''timeout''))
                              else ([(''kind'', VOther ''Pod'')], None)))
        [(''kind'', VOther ''Job'')]
     = Inr (Inl (Wrap (ErrorOther ''timeout'') ''getting state from cluster''))
   \<and> subsetDiff (sample (\<lambda>m. if m = [(''kind'', VOther ''Job'')]
                              then ([], Some (ErrorOther ''timeout''))
                              else ([(''kind'', VOther ''Pod'')], None)))
        [(''kind'', VOther ''Pod'')]
     = Inr (Inr \<lparr>name = ''manifest'', local = ''kind:'' @ newline, cluster = ''kind:'' @ newline\<rparr>)
   \<and> SubsetDiffer (sample (\<lambda>m. if m = [(''kind'', VOther ''Job'')]
                              then ([], Some (ErrorOther ''timeout''))
                              else ([(''kind'', VOther ''Pod'')], None)))
        [1, 0] [[(''kind'', VOther ''Job'')], [(''kind'', VOther ''Pod'')]]
     = Inr (None, Some (Wrap (Wrap (ErrorOther ''timeout'') ''getting state from cluster'')
                             ''calculating subset''))"
proof -
  let ?c = "sample (\<lambda>m. if m = [(''kind'', VOther ''Job'')]
                              then ([], Some (ErrorOther ''timeout''))
                              else ([(''kind'', VOther ''Pod'')], None))"
  let ?state = "[[(''kind'', VOther ''Job'')], [(''kind'', VOther ''Pod'')]]"
  have 1: "arrival_order (length ?state) [1, 0]"
    by (simp add: arrival_order_def upt_rec)
  have a: "subsetDiff ?c [(''kind'', VOther ''Job'')]
     = Inr (Inl (Wrap (ErrorOther ''timeout'') ''getting state from cluster''))"
    by (simp add: subsetDiff_def sample_def)
  have b: "subsetDiff ?c [(''kind'', VOther ''Pod'')]
     = Inr (Inr \<lparr>name = ''manifest'', local = ''kind:'' @ newline, cluster = ''kind:'' @ newline\<rparr>)"
    by (simp add: subsetDiff_def sample_def subset.simps index_def newline_def)
  from a b have 2: "\<forall>m \<in> set ?state. \<exists>msg. subsetDiff ?c m = Inr msg" by simp
  from a have 3: "\<exists>m \<in> set ?state. \<exists>e. subsetDiff ?c m = Inr (Inl e)" by simp
  from SubsetDiffer_error[OF 1 2 3] a b 1 show ?thesis by auto
qed

theorem SubsetDiffer_error_counterexample:
  "subsetDiff (sample (\<lambda>m. if m = [(''kind'', VOther ''Job'')]
                              then ([], Some (ErrorOther ''timeout''))
                              else ([(''ports'', VMapSlice [[(''port'', VOther ''80'')]])], None)))
        [(''kind'', VOther ''Job'')]
     = Inr (Inl (Wrap (ErrorOther ''timeout'') ''getting state from cluster''))
   \<and> subsetDiff (sample (\<lambda>m. if m = [(''kind'', VOther ''Job'')]
                              then ([], Some (ErrorOther ''timeout''))
                              else ([(''ports'', VMapSlice [[(''port'', VOther ''80'')]])], None)))
        [(''ports'', VMapSlice [])]
     = Inl IndexOutOfRange
   \<and> arrival_order (length [[(''kind'', VOther ''Job'')], [(''ports'', VMapSlice [])]]) [0, 1]
   \<and> SubsetDiffer (sample (\<lambda>m. if m = [(''kind'', VOther ''Job'')]
                              then ([], Some (ErrorOther ''timeout''))
                              else ([(''ports'', VMapSlice [[(''port'', VOther ''80'')]])], None)))
        [0, 1] [[(''kind'', VOther ''Job'')], [(''ports'', VMapSlice [])]]
     = Inl IndexOutOfRange"
  by (simp add: SubsetDiffer_def parallelSubsetDiff_def subsetDiff_def sample_def subset.simps
        index_def arrival_order_def upt_rec)

subsection \<open>C9: the fields of the record\<close>

text \<open>
  Claim C9: when the fetch succeeds or reports not-found, the record the worker returns
  has the text of the reduced live tree in \<open>local\<close>, the text of the manifest in
  \<open>cluster\<close> and the label of the manifest in \<open>name\<close>.

  The fields \<open>name\<close> and \<open>cluster\<close> are as claimed. The field \<open>local\<close> is the text
  of the reduced live tree unless that text is \<open>{}\<close> followed by a newline: lines 99-101
  put the empty string in its place. In the counterexample the manifest is not in the
  cluster, the reduced live tree is the empty map, its text is \<open>{}\<close> and a newline, and
  \<open>local\<close> is the empty string. The theorem says which record the worker returns,
  and that it returns one exactly when \<open>subset\<close> returns.
\<close>

theorem subsetDiff_record:
  assumes "Get c m = (res, err)" and "err = None \<or> err = Some ErrorNotFound"
  shows "subsetDiff c m = Inr (Inr d) \<longleftrightarrow>
           (\<exists>reduced. subset m (if err = None then res else []) = Inr reduced \<and>
              d = \<lparr>name = DiffName c m,
                    local = (if String c reduced = ''{}'' @ newline then []
                             else String c reduced),
                    cluster = String c m\<rparr>)"
proof (cases "subset m (if err = None then res else [])")
  case (Inl p)
  with assms have "subsetDiff c m = Inl p"
    by (auto simp: subsetDiff_def Let_def)
  with Inl show ?thesis by simp
next
  case (Inr reduced)
  from subsetDiff_fetched[OF assms Inr] Inr show ?thesis by auto
qed

theorem subsetDiff_record_witness:
  "Get (sample (\<lambda>m. ([(''kind'', VOther ''Service''), (''status'', VOther ''Active'')], None)))
       [(''kind'', VOther ''Service'')]
     = ([(''kind'', VOther ''Service''), (''status'', VOther ''Active'')], None)
   \<and> subset [(''kind'', VOther ''Service'')]
            [(''kind'', VOther ''Service''), (''status'', VOther ''Active'')]
     = Inr [(''kind'', VOther ''Service'')]
   \<and> subsetDiff (sample (\<lambda>m. ([(''kind'', VOther ''Service''), (''status'', VOther ''Active'')], None)))
        [(''kind'', VOther ''Service'')]
     = Inr (Inr \<lparr>name = ''manifest'', local = ''kind:'' @ newline,
                 cluster = ''kind:'' @ newline\<rparr>)"
proof -
  let ?c = "sample (\<lambda>m. ([(''kind'', VOther ''Service''), (''status'', VOther ''Active'')], None))"
  let ?m = "[(''kind'', VOther ''Service'')]"
  have 1: "Get ?c ?m = ([(''kind'', VOther ''Service''), (''status'', VOther ''Active'')], None)"
    by (simp add: sample_def)
  have 2: "(None :: goerr option) = None \<or> None = Some ErrorNotFound" by simp
  have 3: "subset ?m (if (None :: goerr option) = None
                      then [(''kind'', VOther ''Service''), (''status'', VOther ''Active'')] else [])
             = Inr [(''kind'', VOther ''Service'')]"
    by (simp add: subset.simps index_def)
  from subsetDiff_record[OF 1 2,
         of "\<lparr>name = ''manifest'', local = ''kind:'' @ newline, cluster = ''kind:'' @ newline\<rparr>"]
    1 3
  show ?thesis by (simp add: sample_def newline_def)
qed

theorem subsetDiff_record_counterexample:
  "Get (sample (\<lambda>m. ([], Some ErrorNotFound))) [(''kind'', VOther ''Service'')]
     = ([], Some ErrorNotFound)
   \<and> subset [(''kind'', VOther ''Service'')] [] = Inr []
   \<and> String (sample (\<lambda>m. ([], Some ErrorNotFound))) [] = ''{}'' @ newline
   \<and> subsetDiff (sample (\<lambda>m. ([], Some ErrorNotFound))) [(''kind'', VOther ''Service'')]
     = Inr (Inr \<lparr>name = ''manifest'', local = [], cluster = ''kind:'' @ newline\<rparr>)
   \<and> [] \<noteq> ''{}'' @ newline"
  by (simp add: subsetDiff_def sample_def subset.simps index_def)

subsection \<open>C10: a nil value in the desired tree\<close>

text \<open>
  Claim C10: a key that the desired tree maps to nil is treated as a key the desired
  tree does not have. The test of line 125 is \<open>local[k] == nil\<close>, which holds in both
  cases: \<open>subset\<close> computes the same for the desired tree and for the desired tree
  without the key, and the result has no entry for the key.
\<close>

theorem subset_null_as_absent:
  assumes "map_of d k = Some VNil"
  shows "subset d l = subset (AList.delete k d) l \<and>
         (\<forall>r. subset d l = Inr r \<longrightarrow> map_of r k = None)"
proof -
  from assms have nil: "index d k = VNil" by (simp add: index_def)
  then have "index d k' = index (AList.delete k d) k'" for k'
    by (simp add: index_delete)
  then have "subset d l = subset (AList.delete k d) l" by (rule subset_cong_index)
  moreover have "map_of r k = None" if "subset d l = Inr r" for r
    using subset_Some[OF that, of k] nil by (cases "map_of r k") auto
  ultimately show ?thesis by blast
qed

theorem subset_null_as_absent_witness:
  "map_of [(''a'', VOther (1::int)), (''b'', VNil)] ''b'' = Some VNil
   \<and> subset [(''a'', VOther (1::int)), (''b'', VNil)] [(''a'', VOther 4), (''b'', VOther 5)]
     = subset [(''a'', VOther 1)] [(''a'', VOther 4), (''b'', VOther 5)]
   \<and> subset [(''a'', VOther (1::int)), (''b'', VNil)] [(''a'', VOther 4), (''b'', VOther 5)]
     = Inr [(''a'', VOther 4)]
   \<and> map_of [(''a'', VOther (4::int))] ''b'' = None"
proof -
  have h: "map_of [(''a'', VOther (1::int)), (''b'', VNil)] ''b'' = Some VNil" by simp
  have r: "subset [(''a'', VOther (1::int)), (''b'', VNil)] [(''a'', VOther 4), (''b'', VOther 5)]
     = Inr [(''a'', VOther 4)]"
    by (simp add: subset.simps index_def)
  from subset_null_as_absent[OF h, of "[(''a'', VOther 4), (''b'', VOther 5)]"] h r
  show ?thesis by simp
qed

end
